theory Spec2Isabelle
  imports Main "HOL-Library.Sublist"
begin

section \<open>Values\<close>

text \<open>
  The values \<open>lib/shared/utils.js\<close> works on: the JSON-like values of JavaScript and
  \<open>undefined\<close>. An object is the list of its own enumerable properties in the order
  \<open>Object.keys\<close> and \<open>for-in\<close> enumerate them (array-index keys in ascending order first,
  then the other keys in the order they were created). Numbers are payload only: no
  function of the file computes with them.
\<close>

datatype node =
    Undefined
  | Null
  | Bool bool
  | Num int
  | Str string
  | Arr "node list"
  | Obj "(string \<times> node) list"

type_synonym props = "(string \<times> node) list"

text \<open>\<open>_.isObject\<close>: objects and arrays, not \<open>null\<close> and not the primitives.\<close>

fun isObject :: "node \<Rightarrow> bool" where
  "isObject (Arr xs) = True"
| "isObject (Obj kvs) = True"
| "isObject v = False"

text \<open>\<open>_.isString\<close>.\<close>

fun isString :: "node \<Rightarrow> bool" where
  "isString (Str s) = True"
| "isString v = False"

subsection \<open>Characters\<close>

definition isDigit :: "char \<Rightarrow> bool" where
  "isDigit c = (48 \<le> (of_char c :: nat) \<and> (of_char c :: nat) \<le> 57)"

definition isUpper :: "char \<Rightarrow> bool" where
  "isUpper c = (65 \<le> (of_char c :: nat) \<and> (of_char c :: nat) \<le> 90)"

definition isLower :: "char \<Rightarrow> bool" where
  "isLower c = (97 \<le> (of_char c :: nat) \<and> (of_char c :: nat) \<le> 122)"

definition toUpper :: "char \<Rightarrow> char" where
  "toUpper c = (if isLower c then char_of ((of_char c :: nat) - 32) else c)"

subsection \<open>Property assignment\<close>

text \<open>
  \<open>obj[key] = value\<close> on a plain object. An existing property keeps its place and gets
  the new value. A new property whose key is an array index (the canonical decimal
  numeral of a number below \<open>2^32 - 1\<close>) is enumerated among the array-index keys in
  ascending numeric order, ahead of every other key; any other new property is
  enumerated last.
\<close>

definition decimal :: "string \<Rightarrow> nat" where
  "decimal k = foldl (\<lambda>n c. 10 * n + ((of_char c :: nat) - 48)) 0 k"

definition isArrayIndex :: "string \<Rightarrow> bool" where
  "isArrayIndex k =
     (k \<noteq> [] \<and> list_all isDigit k \<and> (k = ''0'' \<or> hd k \<noteq> CHR ''0'') \<and>
      decimal k < 4294967295)"

fun putIndex :: "string \<Rightarrow> node \<Rightarrow> props \<Rightarrow> props" where
  "putIndex k v [] = [(k, v)]"
| "putIndex k v ((k', v') # ps) =
     (if isArrayIndex k' \<and> decimal k' < decimal k then (k', v') # putIndex k v ps
      else (k, v) # (k', v') # ps)"

fun replaceProp :: "string \<Rightarrow> node \<Rightarrow> props \<Rightarrow> props" where
  "replaceProp k v [] = []"
| "replaceProp k v ((k', v') # ps) =
     (if k' = k then (k, v) # ps else (k', v') # replaceProp k v ps)"

definition setProp :: "string \<Rightarrow> node \<Rightarrow> props \<Rightarrow> props" where
  "setProp k v ps =
     (if k \<in> set (map fst ps) then replaceProp k v ps
      else if isArrayIndex k then putIndex k v ps
      else ps @ [(k, v)])"

section \<open>The libraries\<close>

subsection \<open>lodash: \<open>_.startCase\<close>\<close>

text \<open>
  \<open>_.startCase\<close> (lodash 4) is a library function; the functions below take it as the
  parameter \<open>sc\<close>, and every general theorem holds for any \<open>sc\<close>. For the examples,
  \<open>startCase\<close> computes what lodash computes on a key of ASCII characters: the
  apostrophes are removed, the key is cut into words (\<open>_.words\<close>: a run of digits; a run
  of lower-case letters, with one upper-case letter before it if there is one; a run of
  upper-case letters, without its last letter when a lower-case letter follows it;
  every other character separates), each word gets its first letter in upper case
  (\<open>_.upperFirst\<close>), and the words are joined by single spaces. (Ordinal suffixes such as
  \<open>1st\<close>, which later lodash versions keep in one word, are not modelled.)
\<close>

lemma length_dropWhile_less: "length (dropWhile P xs) < Suc (length xs)"
  by (simp add: le_imp_less_Suc length_dropWhile_le)

lemma length_dropWhile_less': "takeWhile P xs \<noteq> [] \<Longrightarrow> length (dropWhile P xs) < length xs"
  by (cases xs) (auto simp: length_dropWhile_less split: if_splits)

function words :: "string \<Rightarrow> string list" where
  "words [] = []"
| "words (c # cs) =
     (if isDigit c then (c # takeWhile isDigit cs) # words (dropWhile isDigit cs)
      else if isLower c then (c # takeWhile isLower cs) # words (dropWhile isLower cs)
      else if isUpper c then
        (if takeWhile isUpper cs = [] then
           (if cs \<noteq> [] \<and> isLower (hd cs)
            then (c # takeWhile isLower cs) # words (dropWhile isLower cs)
            else [c] # words cs)
         else
           (if dropWhile isUpper cs \<noteq> [] \<and> isLower (hd (dropWhile isUpper cs))
            then butlast (c # takeWhile isUpper cs) #
                 words (last (takeWhile isUpper cs) # dropWhile isUpper cs)
            else (c # takeWhile isUpper cs) # words (dropWhile isUpper cs)))
      else words cs)"
  by pat_completeness auto
termination
  by (relation "measure length")
     (simp_all add: length_dropWhile_less length_dropWhile_less')

definition upperFirst :: "string \<Rightarrow> string" where
  "upperFirst w = (case w of [] \<Rightarrow> [] | c # cs \<Rightarrow> toUpper c # cs)"

fun joinSpace :: "string list \<Rightarrow> string" where
  "joinSpace [] = []"
| "joinSpace [w] = w"
| "joinSpace (w # ws) = w @ '' '' @ joinSpace ws"

definition startCase :: "string \<Rightarrow> string" where
  "startCase s = joinSpace (map upperFirst (words (filter (\<lambda>c. c \<noteq> CHR 0x27) s)))"

subsection \<open>Exceptions\<close>

text \<open>
  The one exception that the functions modelled here throw on a JSON-like value. A
  function that may throw returns \<open>Inl\<close> the exception or \<open>Inr\<close> its result. \<open>mapE g xs\<close> is a
  loop over \<open>xs\<close> that collects the results of \<open>g\<close> in order (\<open>_.map\<close>, or a \<open>for\<close> loop that
  pushes), and ends with the first exception that \<open>g\<close> throws.
\<close>

datatype error = TypeError

fun mapE :: "('a \<Rightarrow> error + 'b) \<Rightarrow> 'a list \<Rightarrow> error + 'b list" where
  "mapE g [] = Inr []"
| "mapE g (x # xs) =
     (case g x of Inl e \<Rightarrow> Inl e
      | Inr y \<Rightarrow> (case mapE g xs of Inl e \<Rightarrow> Inl e | Inr ys \<Rightarrow> Inr (y # ys)))"

lemma mapE_cong [fundef_cong]:
  "xs = ys \<Longrightarrow> (\<And>x. x \<in> set ys \<Longrightarrow> g x = h x) \<Longrightarrow> mapE g xs = mapE h ys"
  by (induction ys arbitrary: xs) (auto split: sum.splits)

subsection \<open>deep-map-keys\<close>

text \<open>
  \<open>deepMapKeys(object, mapFn)\<close> of the package deep-map-keys. An array is mapped element
  by element (\<open>mapArray\<close>). An object is rebuilt property by property in enumeration
  order (\<open>mapObject\<close>):
  \<open>for (key in obj) if (obj.hasOwnProperty(key)) result[mapFn(key)] = map(obj[key])\<close>.
  The test \<open>obj.hasOwnProperty(key)\<close> calls whatever \<open>obj\<close> has under the name
  \<open>hasOwnProperty\<close>: when \<open>obj\<close> has an own property of that name, its value is called, which
  is no function for any value modelled here, and the call throws a \<open>TypeError\<close>;
  otherwise the method of the prototype answers true for every own key. Every other
  value is returned as it is.
\<close>

definition hasOwn :: "props \<Rightarrow> string \<Rightarrow> bool" where
  "hasOwn kvs k = (k \<in> set (map fst kvs))"

fun deepMapKeys :: "(string \<Rightarrow> string) \<Rightarrow> node \<Rightarrow> error + node" where
  "deepMapKeys f (Arr xs) =
     (case mapE (deepMapKeys f) xs of Inl e \<Rightarrow> Inl e | Inr ys \<Rightarrow> Inr (Arr ys))"
| "deepMapKeys f (Obj kvs) =
     (case fold (\<lambda>(key, v) acc.
                  case acc of Inl e \<Rightarrow> Inl e
                  | Inr result \<Rightarrow>
                      if hasOwn kvs ''hasOwnProperty'' then Inl TypeError
                      else (case deepMapKeys f v of Inl e \<Rightarrow> Inl e
                            | Inr v' \<Rightarrow> Inr (setProp (f key) v' result)))
             kvs (Inr [])
      of Inl e \<Rightarrow> Inl e | Inr result \<Rightarrow> Inr (Obj result))"
| "deepMapKeys f v = Inr v"

subsection \<open>flat\<close>

text \<open>
  \<open>flatten(target, {delimiter: ' ', safe: true})\<close> of the package flat (version 2), with
  the options this repository passes. Its inner function \<open>step(object, prev)\<close> visits
  the properties of \<open>object\<close> in enumeration order; for each,
  \<open>newKey = prev ? prev + delimiter + key : key\<close> (so an absent and an empty \<open>prev\<close> both
  give \<open>key\<close>), and
  \<open>if (!isarray && !isbuffer && isobject && Object.keys(value).length) return step(value, newKey)\<close>,
  otherwise \<open>output[newKey] = value\<close>. With \<open>safe: true\<close> every array has \<open>isarray\<close>; so
  \<open>step\<close> descends into the objects that have a property, and writes every other value
  to the output: a primitive, \<open>undefined\<close>, an array, an object with no property.
\<close>

definition newKey :: "string option \<Rightarrow> string \<Rightarrow> string" where
  "newKey prev key =
     (case prev of None \<Rightarrow> key
      | Some p \<Rightarrow> if p = [] then key else p @ '' '' @ key)"

function (sequential) step :: "string option \<Rightarrow> props \<Rightarrow> props \<Rightarrow> props" where
  "step prev [] output = output"
| "step prev ((key, Obj (kv # kvs)) # rest) output =
     step prev rest (step (Some (newKey prev key)) (kv # kvs) output)"
| "step prev ((key, v) # rest) output =
     step prev rest (setProp (newKey prev key) v output)"
  by pat_completeness auto
termination
  by (relation "measure (\<lambda>(prev, kvs, output). size_list (size_prod (\<lambda>k. 0) size) kvs)")
     simp_all

text \<open>
  \<open>flatten\<close> starts \<open>step\<close> on the target with no \<open>prev\<close> and an empty output. Here the
  target is always the object that \<open>deepMapKeys\<close> returns; a target that is a primitive
  has no property and gives the empty output (an array target is never passed, and is
  not modelled).
\<close>

definition flatten :: "node \<Rightarrow> node" where
  "flatten target = (case target of Obj kvs \<Rightarrow> Obj (step None kvs []) | v \<Rightarrow> Obj [])"

section \<open>The functions of \<open>lib/shared/utils.js\<close>\<close>

subsection \<open>\<open>makeFlatStartCaseObject\<close>\<close>

text \<open>The test \<open>/^[A-Z_]+$/\<close> that preserves environment variables.\<close>

definition regexTest :: "string \<Rightarrow> bool" where
  "regexTest key = (key \<noteq> [] \<and> list_all (\<lambda>c. isUpper c \<or> c = CHR ''_'') key)"

text \<open>The function handed to \<open>deepMapKeys\<close>; \<open>sc\<close> is \<open>_.startCase\<close>.\<close>

definition renameKey :: "(string \<Rightarrow> string) \<Rightarrow> string \<Rightarrow> string" where
  "renameKey sc key = (if regexTest key then key else sc key)"

text \<open>
  The branches of the source, in its order: \<open>undefined\<close> is returned; a value that is not
  an object for \<open>_.isObject\<close> (the last equation: \<open>null\<close>, a boolean, a number, a string) is
  wrapped; an array is mapped; an object gets its keys renamed and is flattened. An
  exception of \<open>deepMapKeys\<close>, or of the call on an element of an array, is not caught.
\<close>

fun makeFlatStartCaseObject :: "(string \<Rightarrow> string) \<Rightarrow> node \<Rightarrow> error + node" where
  "makeFlatStartCaseObject sc Undefined = Inr Undefined"
| "makeFlatStartCaseObject sc (Arr xs) =
     (case mapE (\<lambda>property.
                   if isObject property then makeFlatStartCaseObject sc property
                   else Inr property) xs
      of Inl e \<Rightarrow> Inl e | Inr ys \<Rightarrow> Inr (Arr ys))"
| "makeFlatStartCaseObject sc (Obj kvs) =
     (case deepMapKeys (renameKey sc) (Obj kvs) of Inl e \<Rightarrow> Inl e
      | Inr transformedKeysObject \<Rightarrow> Inr (flatten transformedKeysObject))"
| "makeFlatStartCaseObject sc v = Inr (Obj [(''Value'', v)])"

subsection \<open>\<open>hideAbsolutePathsInObject\<close>\<close>

text \<open>
  Node's \<open>path\<close> module follows the host platform. \<open>path.isAbsolute\<close>: on POSIX the path
  starts with \<open>/\<close>; on Windows it starts with \<open>/\<close> or a backslash, or with a drive letter, a
  colon and one of the two separators. \<open>path.basename\<close> (one argument): what follows the
  last separator, once the separators that end the path are ignored; on Windows the
  separators are \<open>/\<close> and the backslash, and a drive letter with its colon at the start of
  the path is not part of the result.
\<close>

datatype platform = Posix | Win32

definition backslash :: char where
  "backslash = CHR 0x5C"

definition isSep :: "platform \<Rightarrow> char \<Rightarrow> bool" where
  "isSep pf c = (c = CHR ''/'' \<or> (pf = Win32 \<and> c = backslash))"

definition isLetter :: "char \<Rightarrow> bool" where
  "isLetter c = (isUpper c \<or> isLower c)"

fun isAbsolute :: "platform \<Rightarrow> string \<Rightarrow> bool" where
  "isAbsolute pf [] = False"
| "isAbsolute Posix (c # cs) = (c = CHR ''/'')"
| "isAbsolute Win32 (c # cs) =
     (isSep Win32 c \<or>
      (isLetter c \<and> (case cs of c1 # c2 # rest \<Rightarrow> c1 = CHR '':'' \<and> isSep Win32 c2
                      | _ \<Rightarrow> False)))"

fun afterDrive :: "platform \<Rightarrow> string \<Rightarrow> string" where
  "afterDrive Win32 (d # c # cs) = (if isLetter d \<and> c = CHR '':'' then cs else d # c # cs)"
| "afterDrive pf p = p"

definition basename :: "platform \<Rightarrow> string \<Rightarrow> string" where
  "basename pf p =
     rev (takeWhile (\<lambda>c. \<not> isSep pf c) (dropWhile (isSep pf) (rev (afterDrive pf p))))"

text \<open>
  \<open>_.deepMapValues(object, callback)\<close> of lodash-deep: an array is mapped element by
  element; an object gets the same keys, in the same order, with the values mapped
  (\<open>_.extend({}, object, _.mapValues(object, ...))\<close>); on every other value the result is
  \<open>callback(value)\<close>.
\<close>

fun deepMapValues :: "(node \<Rightarrow> node) \<Rightarrow> node \<Rightarrow> node" where
  "deepMapValues callback (Arr xs) = Arr (map (deepMapValues callback) xs)"
| "deepMapValues callback (Obj kvs) =
     Obj (map (\<lambda>(key, v). (key, deepMapValues callback v)) kvs)"
| "deepMapValues callback v = callback v"

text \<open>The two prefixes of disk devices: \<open>/dev/\<close>, and two backslashes, a dot, a backslash.\<close>

definition devPrefix :: string where
  "devPrefix = ''/dev/''"

definition devPrefixWin :: string where
  "devPrefixWin = [backslash, backslash, CHR ''.'', backslash]"

text \<open>The callback of \<open>hideAbsolutePathsInObject\<close>.\<close>

fun hidePath :: "platform \<Rightarrow> node \<Rightarrow> node" where
  "hidePath pf (Str s) =
     (if prefix devPrefix s \<or> prefix devPrefixWin s then Str s
      else if isAbsolute pf s then Str (basename pf s) else Str s)"
| "hidePath pf v = v"

definition hideAbsolutePathsInObject :: "platform \<Rightarrow> node \<Rightarrow> node" where
  "hideAbsolutePathsInObject pf object = deepMapValues (hidePath pf) object"

section \<open>Notions of the specification\<close>

subsection \<open>Key paths, leaves and path-strings\<close>

text \<open>
  A leaf of a mapping is a value reached from it through mappings only, by a key path
  \<open>[k1, ..., kn]\<close>, that is not itself a mapping with a key: a scalar, \<open>undefined\<close>, a
  sequence, or an empty mapping. \<open>leavesOf kvs\<close> lists the leaves of the mapping with the
  properties \<open>kvs\<close>, each with its key path, in enumeration order.
\<close>

fun descends :: "node \<Rightarrow> bool" where
  "descends (Obj (kv # kvs)) = True"
| "descends v = False"

fun leaves :: "node \<Rightarrow> (string list \<times> node) list" where
  "leaves (Obj (kv # kvs)) =
     concat (map (\<lambda>(k, v). map (\<lambda>(p, l). (k # p, l)) (leaves v)) (kv # kvs))"
| "leaves v = [([], v)]"

definition leavesOf :: "props \<Rightarrow> (string list \<times> node) list" where
  "leavesOf kvs = concat (map (\<lambda>(k, v). map (\<lambda>(p, l). (k # p, l)) (leaves v)) kvs)"

text \<open>
  The path-string that \<open>step\<close> builds along a key path, \<open>newKey\<close> by \<open>newKey\<close>, and the
  path-string of a key path of the input, whose keys \<open>f\<close> renames.
\<close>

fun pathString :: "string option \<Rightarrow> string list \<Rightarrow> string" where
  "pathString prev [] = (case prev of None \<Rightarrow> [] | Some p \<Rightarrow> p)"
| "pathString prev (k # ks) = pathString (Some (newKey prev k)) ks"

definition pathKey :: "(string \<Rightarrow> string) \<Rightarrow> string list \<Rightarrow> string" where
  "pathKey f p = pathString None (map f p)"

text \<open>
  Three provisos on the input. \<open>shadowed x\<close>: some mapping of \<open>x\<close>, at any depth, also inside
  a sequence, has a key \<open>hasOwnProperty\<close>. \<open>pathClear f kvs p\<close>: along the key path \<open>p\<close>, the
  key of the path is the only key of its mapping with its renamed key (exactly one
  property of the mapping is renamed to it). \<open>soleWriter f kvs pl\<close>: no other leaf of
  \<open>kvs\<close> has the path-string of the leaf \<open>pl\<close>.
\<close>

fun shadowed :: "node \<Rightarrow> bool" where
  "shadowed (Obj kvs) = (hasOwn kvs ''hasOwnProperty'' \<or> (\<exists>(k, v) \<in> set kvs. shadowed v))"
| "shadowed (Arr xs) = (\<exists>x \<in> set xs. shadowed x)"
| "shadowed v = False"

fun pathClear :: "(string \<Rightarrow> string) \<Rightarrow> props \<Rightarrow> string list \<Rightarrow> bool" where
  "pathClear f kvs [] = True"
| "pathClear f kvs (k # p) =
     (length (filter (\<lambda>(k', v'). f k' = f k) kvs) = 1 \<and>
      (\<forall>(k', v') \<in> set kvs. k' = k \<longrightarrow>
         (case v' of Obj kvs' \<Rightarrow> pathClear f kvs' p | _ \<Rightarrow> True)))"

definition soleWriter ::
  "(string \<Rightarrow> string) \<Rightarrow> props \<Rightarrow> string list \<times> node \<Rightarrow> bool" where
  "soleWriter f kvs pl =
     (\<forall>ql \<in> set (leavesOf kvs). pathKey f (fst ql) = pathKey f (fst pl) \<longrightarrow> ql = pl)"

text \<open>The entries of a mapping that have the key \<open>k\<close>.\<close>

definition entriesAt :: "string \<Rightarrow> props \<Rightarrow> props" where
  "entriesAt k kvs = filter (\<lambda>(key, v). key = k) kvs"

text \<open>The keys of a value, at every depth: those of its mappings, also inside sequences.\<close>

fun allKeys :: "node \<Rightarrow> string set" where
  "allKeys (Obj kvs) = (\<Union>(k, v) \<in> set kvs. insert k (allKeys v))"
| "allKeys (Arr xs) = (\<Union>x \<in> set xs. allKeys x)"
| "allKeys v = {}"

subsection \<open>Positions and shape\<close>

text \<open>
  A position in a value: the keys and indices that lead to it. \<open>valueAt x p\<close> is the
  value of \<open>x\<close> at the position \<open>p\<close>, if \<open>x\<close> has that position.
\<close>

datatype seg = Key string | Index nat

fun valueAt :: "node \<Rightarrow> seg list \<Rightarrow> node option" where
  "valueAt v [] = Some v"
| "valueAt (Obj kvs) (Key k # p) =
     (case map_of kvs k of None \<Rightarrow> None | Some v \<Rightarrow> valueAt v p)"
| "valueAt (Arr xs) (Index i # p) = (if i < length xs then valueAt (xs ! i) p else None)"
| "valueAt v (s # p) = None"

text \<open>
  \<open>sameShape q x y\<close>: \<open>y\<close> has the shape of \<open>x\<close> (a mapping with the same keys in the same
  order where \<open>x\<close> has a mapping, a sequence of the same length where \<open>x\<close> has a sequence,
  related values inside), every leaf of \<open>x\<close> that is not a string is the same in \<open>y\<close>, and
  a string leaf \<open>s\<close> of \<open>x\<close> is a string in \<open>y\<close>, the same one unless \<open>q s\<close>.
\<close>

fun sameShape :: "(string \<Rightarrow> bool) \<Rightarrow> node \<Rightarrow> node \<Rightarrow> bool" where
  "sameShape q (Arr xs) (Arr ys) = list_all2 (sameShape q) xs ys"
| "sameShape q (Obj kvs) (Obj kvs') =
     list_all2 (\<lambda>(k, x) (k', y). k = k' \<and> sameShape q x y) kvs kvs'"
| "sameShape q (Str s) (Str t) = (q s \<or> t = s)"
| "sameShape q (Arr xs) y = False"
| "sameShape q (Obj kvs) y = False"
| "sameShape q (Str s) y = False"
| "sameShape q x y = (x = y)"

text \<open>The strings that \<open>hideAbsolutePathsInObject\<close> may rewrite.\<close>

definition qualifies :: "platform \<Rightarrow> string \<Rightarrow> bool" where
  "qualifies pf s = (\<not> prefix devPrefix s \<and> \<not> prefix devPrefixWin s \<and> isAbsolute pf s)"

subsection \<open>An example input\<close>

text \<open>
  The example of the documentation of \<open>hideAbsolutePathsInObject\<close>, with a sequence of
  drives added, and what the function makes of it on POSIX.
\<close>

definition johnsImages :: node where
  "johnsImages =
     Obj [(''path1'', Str ''/home/john/rpi.img''),
          (''simpleProperty'', Null),
          (''nested'', Obj [(''path2'', Str ''/home/john/another-image.img''),
                            (''path3'', Str ''yet-another-image.img''),
                            (''otherProperty'', Bool False)]),
          (''drives'', Arr [Str ''/dev/disk2'', Str ''/'', Num 4])]"

definition johnsImagesHidden :: node where
  "johnsImagesHidden =
     Obj [(''path1'', Str ''rpi.img''),
          (''simpleProperty'', Null),
          (''nested'', Obj [(''path2'', Str ''another-image.img''),
                            (''path3'', Str ''yet-another-image.img''),
                            (''otherProperty'', Bool False)]),
          (''drives'', Arr [Str ''/dev/disk2'', Str [], Num 4])]"

text \<open>Two Windows paths: \<open>C:\<close>, backslash, \<open>Users\<close>, backslash, \<open>rpi.img\<close>, and a physical drive.\<close>

definition windowsImage :: string where
  "windowsImage = ''C:'' @ [backslash] @ ''Users'' @ [backslash] @ ''rpi.img''"

definition windowsDrive :: string where
  "windowsDrive = devPrefixWin @ ''PHYSICALDRIVE1''"

subsection \<open>Writes\<close>

text \<open>
  For the proofs: \<open>renameAll f x\<close> is what \<open>deepMapKeys f\<close> returns on \<open>x\<close> when it throws
  no exception (\<open>deepMapKeys_eq\<close> below); \<open>puts ws out\<close> assigns the entries of \<open>ws\<close> to
  \<open>out\<close> one after the other; \<open>writes prev kvs\<close> are the assignments that \<open>step prev kvs\<close> makes, in order;
  \<open>renamed f kvs\<close> are the assignments by which \<open>deepMapKeys f\<close> rebuilds an object;
  \<open>flatOut f kvs\<close> are the properties of \<open>flatten\<close> of the rebuilt object;
  \<open>assignStep c g f\<close> is the body of the loop of \<open>mapObject\<close>.
\<close>

fun renameAll :: "(string \<Rightarrow> string) \<Rightarrow> node \<Rightarrow> node" where
  "renameAll f (Arr xs) = Arr (map (renameAll f) xs)"
| "renameAll f (Obj kvs) =
     Obj (fold (\<lambda>(key, v) result. setProp (f key) (renameAll f v) result) kvs [])"
| "renameAll f v = v"

definition assignStep ::
  "bool \<Rightarrow> (node \<Rightarrow> error + node) \<Rightarrow> (string \<Rightarrow> string) \<Rightarrow>
   string \<times> node \<Rightarrow> error + props \<Rightarrow> error + props" where
  "assignStep c g f =
     (\<lambda>(key, v) acc.
        case acc of Inl e \<Rightarrow> Inl e
        | Inr result \<Rightarrow>
            if c then Inl TypeError
            else (case g v of Inl e \<Rightarrow> Inl e
                  | Inr v' \<Rightarrow> Inr (setProp (f key) v' result)))"

definition puts :: "props \<Rightarrow> props \<Rightarrow> props" where
  "puts ws out = fold (\<lambda>(k, v) acc. setProp k v acc) ws out"

definition writes :: "string option \<Rightarrow> props \<Rightarrow> props" where
  "writes prev kvs = map (\<lambda>(p, l). (pathString prev p, l)) (leavesOf kvs)"

definition renamed :: "(string \<Rightarrow> string) \<Rightarrow> props \<Rightarrow> props" where
  "renamed f kvs = map (\<lambda>(k, v). (f k, renameAll f v)) kvs"

definition flatOut :: "(string \<Rightarrow> string) \<Rightarrow> props \<Rightarrow> props" where
  "flatOut f kvs = puts (writes None (puts (renamed f kvs) [])) []"

section \<open>Lemmas\<close>

subsection \<open>Loops that may throw\<close>

lemma error_eq: "(e :: error) = TypeError"
  by (cases e) simp

lemma mapE_Inr:
  "(\<And>x. x \<in> set xs \<Longrightarrow> g x = Inr (h x)) \<Longrightarrow> mapE g xs = Inr (map h xs)"
  by (induction xs) simp_all

lemma mapE_Inl:
  "x \<in> set xs \<Longrightarrow> isl (g x) \<Longrightarrow> mapE g xs = Inl TypeError"
proof (induction xs)
  case Nil
  then show ?case by simp
next
  case (Cons a xs)
  show ?case
  proof (cases "g a")
    case (Inl e)
    then show ?thesis by (simp add: error_eq)
  next
    case (Inr y)
    with Cons.prems have "x \<in> set xs" by auto
    with Cons.IH Cons.prems(2) have "mapE g xs = Inl TypeError" by simp
    with Inr show ?thesis by simp
  qed
qed

lemma mapE_list_all2:
  "mapE g xs = Inr ys \<longleftrightarrow> list_all2 (\<lambda>x y. g x = Inr y) xs ys"
proof (induction xs arbitrary: ys)
  case Nil
  then show ?case by auto
next
  case (Cons a xs)
  show ?case
    by (cases ys) (auto simp: Cons.IH [symmetric] split: sum.splits)
qed

subsection \<open>When \<open>deepMapKeys\<close> throws\<close>

lemma deepMapKeys_Obj:
  "deepMapKeys f (Obj kvs) =
     (case fold (assignStep (hasOwn kvs ''hasOwnProperty'') (deepMapKeys f) f) kvs (Inr [])
      of Inl e \<Rightarrow> Inl e | Inr result \<Rightarrow> Inr (Obj result))"
  by (simp add: assignStep_def)

lemma assignStep_Inl: "assignStep c g f w (Inl e) = Inl e"
  by (simp add: assignStep_def case_prod_unfold)

lemma fold_assignStep_Inl: "fold (assignStep c g f) ws (Inl e) = Inl e"
  by (induction ws) (simp_all add: assignStep_Inl)

lemma fold_assignStep_throw:
  assumes "ws \<noteq> []"
  shows "fold (assignStep True g f) ws acc = Inl TypeError"
proof -
  from assms obtain w ws' where ws: "ws = w # ws'" by (cases ws) auto
  have "assignStep True g f w acc = Inl TypeError"
    by (cases acc) (simp_all add: assignStep_def case_prod_unfold error_eq)
  with ws show ?thesis by (simp add: fold_assignStep_Inl)
qed

lemma fold_assignStep_Inr:
  assumes "\<And>k v. (k, v) \<in> set ws \<Longrightarrow> g v = Inr (h v)"
  shows "fold (assignStep False g f) ws (Inr r) =
           Inr (fold (\<lambda>(key, v) result. setProp (f key) (h v) result) ws r)"
  using assms
proof (induction ws arbitrary: r)
  case Nil
  then show ?case by simp
next
  case (Cons w ws)
  obtain k v where w: "w = (k, v)" by (cases w)
  from Cons.prems [of k v] w have gv: "g v = Inr (h v)" by simp
  have rest: "\<And>k v. (k, v) \<in> set ws \<Longrightarrow> g v = Inr (h v)"
    using Cons.prems by auto
  have "assignStep False g f w (Inr r) = Inr (setProp (f k) (h v) r)"
    by (simp add: assignStep_def w gv)
  then show ?case
    using Cons.IH [OF rest] w by simp
qed

lemma fold_assignStep_isl:
  assumes "(k, v) \<in> set ws" and "isl (g v)"
  shows "fold (assignStep False g f) ws acc = Inl TypeError"
  using assms
proof (induction ws arbitrary: acc)
  case Nil
  then show ?case by simp
next
  case (Cons w ws)
  obtain k' v' where w: "w = (k', v')" by (cases w)
  show ?case
  proof (cases "assignStep False g f w acc")
    case (Inl e)
    then show ?thesis by (simp add: fold_assignStep_Inl error_eq)
  next
    case (Inr r)
    have "\<not> isl (g v')"
      using Inr w by (cases acc; cases "g v'") (simp_all add: assignStep_def)
    with Cons.prems w have "(k, v) \<in> set ws" by auto
    from Cons.IH [OF this Cons.prems(2)] show ?thesis by simp
  qed
qed

lemma deepMapKeys_eq:
  "deepMapKeys f x = (if shadowed x then Inl TypeError else Inr (renameAll f x))"
proof (induction f x rule: deepMapKeys.induct)
  case (1 f xs)
  show ?case
  proof (cases "shadowed (Arr xs)")
    case True
    then obtain x where x: "x \<in> set xs" and "shadowed x" by auto
    with "1.IH" have "isl (deepMapKeys f x)" by simp
    with x have "mapE (deepMapKeys f) xs = Inl TypeError" by (rule mapE_Inl)
    with True show ?thesis by simp
  next
    case False
    then have "\<And>x. x \<in> set xs \<Longrightarrow> deepMapKeys f x = Inr (renameAll f x)"
      using "1.IH" by auto
    then have "mapE (deepMapKeys f) xs = Inr (map (renameAll f) xs)" by (rule mapE_Inr)
    with False show ?thesis by simp
  qed
next
  case (2 f kvs)
  show ?case
  proof (cases "hasOwn kvs ''hasOwnProperty''")
    case True
    then have "kvs \<noteq> []" by (auto simp: hasOwn_def)
    with True show ?thesis
      by (simp add: deepMapKeys_Obj fold_assignStep_throw del: deepMapKeys.simps)
  next
    case own: False
    have IH: "deepMapKeys f v = (if shadowed v then Inl TypeError else Inr (renameAll f v))"
      if "(k, v) \<in> set kvs" for k v
      using "2.IH" [OF that refl own] by simp
    show ?thesis
    proof (cases "shadowed (Obj kvs)")
      case True
      with own obtain k v where kv: "(k, v) \<in> set kvs" and "shadowed v" by auto
      with IH have "isl (deepMapKeys f v)" by simp
      with kv have "fold (assignStep False (deepMapKeys f) f) kvs (Inr []) = Inl TypeError"
        by (rule fold_assignStep_isl)
      with True own show ?thesis
        by (simp add: deepMapKeys_Obj del: deepMapKeys.simps)
    next
      case False
      then have "\<And>k v. (k, v) \<in> set kvs \<Longrightarrow> deepMapKeys f v = Inr (renameAll f v)"
        using IH by auto
      then have "fold (assignStep False (deepMapKeys f) f) kvs (Inr []) =
          Inr (fold (\<lambda>(key, v) result. setProp (f key) (renameAll f v) result) kvs [])"
        by (rule fold_assignStep_Inr)
      with False own show ?thesis
        by (simp add: deepMapKeys_Obj del: deepMapKeys.simps)
    qed
  qed
qed simp_all

subsection \<open>Property assignment\<close>

lemma replaceProp_keys: "map fst (replaceProp k v ps) = map fst ps"
  by (induction ps) auto

lemma replaceProp_set_subset: "set (replaceProp k v ps) \<subseteq> insert (k, v) (set ps)"
  by (induction ps) (auto split: if_splits)

lemma map_of_replaceProp:
  "k \<in> fst ` set ps \<Longrightarrow> map_of (replaceProp k v ps) = (map_of ps)(k \<mapsto> v)"
proof (induction ps)
  case Nil
  then show ?case by simp
next
  case (Cons a ps)
  show ?case
  proof (cases "fst a = k")
    case True
    then show ?thesis by (cases a) auto
  next
    case False
    with Cons.prems have "k \<in> fst ` set ps" by auto
    with Cons.IH False show ?thesis by (cases a) (auto simp: fun_eq_iff)
  qed
qed

lemma putIndex_set: "set (putIndex k v ps) = insert (k, v) (set ps)"
  by (induction ps) (auto split: if_splits)

lemma map_of_putIndex:
  "k \<notin> fst ` set ps \<Longrightarrow> map_of (putIndex k v ps) = (map_of ps)(k \<mapsto> v)"
  by (induction ps) (auto simp: fun_upd_twist)

lemma distinct_putIndex:
  "k \<notin> fst ` set ps \<Longrightarrow> distinct (map fst ps) \<Longrightarrow> distinct (map fst (putIndex k v ps))"
  by (induction ps) (auto simp: putIndex_set)

lemma map_of_append_new:
  "k \<notin> fst ` set ps \<Longrightarrow> map_of (ps @ [(k, v)]) = (map_of ps)(k \<mapsto> v)"
  by (induction ps) (auto simp: fun_upd_twist)

lemma map_of_setProp: "map_of (setProp k v ps) = (map_of ps)(k \<mapsto> v)"
  unfolding setProp_def
  by (simp add: map_of_replaceProp map_of_putIndex map_of_append_new del: map_of_append)

lemma setProp_keys: "fst ` set (setProp k v ps) = insert k (fst ` set ps)"
proof -
  have "dom (map_of (setProp k v ps)) = insert k (dom (map_of ps))"
    by (simp add: map_of_setProp)
  then show ?thesis by (simp add: dom_map_of_conv_image_fst)
qed

lemma distinct_setProp:
  "distinct (map fst ps) \<Longrightarrow> distinct (map fst (setProp k v ps))"
  unfolding setProp_def
  by (auto simp: replaceProp_keys distinct_putIndex)

lemma setProp_set_subset: "set (setProp k v ps) \<subseteq> insert (k, v) (set ps)"
  unfolding setProp_def using replaceProp_set_subset [of k v ps]
  by (auto simp: putIndex_set)

lemma setProp_not_Nil: "setProp k v ps \<noteq> []"
  using setProp_keys [of k v ps] by auto


subsection \<open>Sequences of writes\<close>

lemma puts_Nil [simp]: "puts [] out = out"
  by (simp add: puts_def)

lemma puts_Cons [simp]: "puts (w # ws) out = puts ws (setProp (fst w) (snd w) out)"
  by (simp add: puts_def split_beta)

lemma puts_append: "puts (ws @ ws') out = puts ws' (puts ws out)"
  by (simp add: puts_def)

lemma distinct_puts: "distinct (map fst out) \<Longrightarrow> distinct (map fst (puts ws out))"
  by (induction ws arbitrary: out) (simp_all add: distinct_setProp)

lemma puts_keys: "fst ` set (puts ws out) = fst ` set ws \<union> fst ` set out"
  by (induction ws arbitrary: out) (simp_all add: setProp_keys)

lemma puts_set_subset: "set (puts ws out) \<subseteq> set ws \<union> set out"
proof (induction ws arbitrary: out)
  case Nil
  then show ?case by simp
next
  case (Cons w ws)
  have "set (puts ws (setProp (fst w) (snd w) out)) \<subseteq> set ws \<union> set (setProp (fst w) (snd w) out)"
    by (rule Cons.IH)
  also have "\<dots> \<subseteq> set ws \<union> insert w (set out)"
    using setProp_set_subset [of "fst w" "snd w" out] by auto
  finally show ?case by auto
qed

lemma map_of_puts_last:
  assumes "(k, v) \<in> set ws" and "\<And>v'. (k, v') \<in> set ws \<Longrightarrow> v' = v"
  shows "map_of (puts ws out) k = Some v"
  using assms
proof (induction ws arbitrary: out rule: rev_induct)
  case Nil
  then show ?case by simp
next
  case (snoc w ws)
  obtain k' v' where w: "w = (k', v')" by (cases w)
  show ?case
  proof (cases "k' = k")
    case True
    with snoc.prems(2) [of v'] w have "v' = v" by simp
    with True w show ?thesis by (simp add: puts_append map_of_setProp)
  next
    case False
    with snoc.prems(1) w have in_ws: "(k, v) \<in> set ws" by simp
    have uniq: "\<And>u. (k, u) \<in> set ws \<Longrightarrow> u = v" using snoc.prems(2) by simp
    have "map_of (puts ws out) k = Some v" using in_ws uniq by (rule snoc.IH)
    with False w show ?thesis by (simp add: puts_append map_of_setProp)
  qed
qed

lemma puts_not_Nil:
  assumes "ws \<noteq> []"
  shows "puts ws out \<noteq> []"
proof
  assume "puts ws out = []"
  then have "fst ` set ws \<union> fst ` set out = {}"
    using puts_keys [of ws out] by simp
  with assms show False by simp
qed


subsection \<open>\<open>step\<close> writes the leaves in order\<close>

lemma leaves_Obj: "kvs \<noteq> [] \<Longrightarrow> leaves (Obj kvs) = leavesOf kvs"
  by (cases kvs) (simp_all add: leavesOf_def)

lemma leaves_not_descends: "\<not> descends v \<Longrightarrow> leaves v = [([], v)]"
  by (cases v rule: descends.cases) simp_all

lemma leavesOf_Nil [simp]: "leavesOf [] = []"
  by (simp add: leavesOf_def)

lemma leavesOf_Cons:
  "leavesOf ((k, v) # kvs) = map (\<lambda>(p, l). (k # p, l)) (leaves v) @ leavesOf kvs"
  by (simp add: leavesOf_def)

lemma leavesOf_iff:
  "(q, l) \<in> set (leavesOf kvs) \<longleftrightarrow>
     (\<exists>k v p. q = k # p \<and> (k, v) \<in> set kvs \<and> (p, l) \<in> set (leaves v))"
  unfolding leavesOf_def by force

lemma writes_Nil [simp]: "writes prev [] = []"
  by (simp add: writes_def)

lemma writes_leaf:
  "\<not> descends v \<Longrightarrow> writes prev ((k, v) # kvs) = (newKey prev k, v) # writes prev kvs"
  by (simp add: writes_def leavesOf_Cons leaves_not_descends)

lemma writes_Obj:
  "writes prev ((k, Obj (kv # kvs)) # rest) =
     writes (Some (newKey prev k)) (kv # kvs) @ writes prev rest"
  by (auto simp add: writes_def leavesOf_Cons leaves_Obj simp del: leaves.simps)

lemma step_puts: "step prev kvs out = puts (writes prev kvs) out"
  by (induction prev kvs out rule: step.induct)
     (simp_all add: writes_leaf writes_Obj puts_append)


subsection \<open>The leaves of the renamed structure\<close>

lemma renameAll_Obj: "renameAll f (Obj kvs) = Obj (puts (renamed f kvs) [])"
  by (simp add: puts_def renamed_def fold_map comp_def case_prod_unfold)

lemma renamed_iff:
  "(k', v') \<in> set (renamed f kvs) \<longleftrightarrow>
     (\<exists>k v. (k, v) \<in> set kvs \<and> k' = f k \<and> v' = renameAll f v)"
  unfolding renamed_def by force

lemma leaves_renameAll_sound:
  "(q, m) \<in> set (leaves (renameAll f x)) \<Longrightarrow>
   \<exists>p l. (p, l) \<in> set (leaves x) \<and> q = map f p \<and> m = renameAll f l"
proof (induction f x arbitrary: q m rule: renameAll.induct)
  case (2 f kvs)
  show ?case
  proof (cases "kvs = []")
    case True
    with "2.prems" show ?thesis by (simp add: renameAll_Obj)
  next
    case False
    then have ne: "puts (renamed f kvs) [] \<noteq> []"
      by (simp add: puts_not_Nil renamed_def)
    with "2.prems" have "(q, m) \<in> set (leavesOf (puts (renamed f kvs) []))"
      by (simp add: renameAll_Obj leaves_Obj del: renameAll.simps)
    then obtain k' v' p' where q: "q = k' # p'"
      and kv': "(k', v') \<in> set (puts (renamed f kvs) [])"
      and pm: "(p', m) \<in> set (leaves v')"
      by (auto simp: leavesOf_iff)
    from kv' have "(k', v') \<in> set (renamed f kvs)"
      using puts_set_subset [of "renamed f kvs" "[]"] by auto
    then obtain k v where kv: "(k, v) \<in> set kvs" and k': "k' = f k"
      and v': "v' = renameAll f v"
      by (auto simp: renamed_iff)
    from "2.IH" [OF kv refl] pm v' obtain p l where
      pl: "(p, l) \<in> set (leaves v)" and p': "p' = map f p" and m: "m = renameAll f l"
      by blast
    from kv pl have "(k # p, l) \<in> set (leavesOf kvs)"
      by (auto simp: leavesOf_iff)
    with False have "(k # p, l) \<in> set (leaves (Obj kvs))"
      by (simp add: leaves_Obj)
    with q k' p' m show ?thesis
      by (intro exI [of _ "k # p"] exI [of _ l]) simp
  qed
qed simp_all

subsection \<open>The flattened output\<close>

lemma distinct_flatOut: "distinct (map fst (flatOut f kvs))"
  by (simp add: flatOut_def distinct_puts)

lemma leavesOf_renamed_sound:
  assumes "(q, m) \<in> set (leavesOf (puts (renamed f kvs) []))"
  shows "\<exists>p l. (p, l) \<in> set (leavesOf kvs) \<and> q = map f p \<and> m = renameAll f l"
proof (cases "kvs = []")
  case True
  with assms show ?thesis by (simp add: renamed_def)
next
  case False
  then have "puts (renamed f kvs) [] \<noteq> []"
    by (simp add: puts_not_Nil renamed_def)
  with assms have "(q, m) \<in> set (leaves (renameAll f (Obj kvs)))"
    by (simp add: renameAll_Obj leaves_Obj del: renameAll.simps)
  from leaves_renameAll_sound [OF this] False show ?thesis
    by (simp add: leaves_Obj)
qed

lemma writes_iff:
  "(K, x) \<in> set (writes prev kvs) \<longleftrightarrow>
     (\<exists>q. (q, x) \<in> set (leavesOf kvs) \<and> K = pathString prev q)"
  unfolding writes_def by force

lemma flatOut_sound:
  assumes "(K, x) \<in> set (flatOut f kvs)"
  shows "\<exists>p l. (p, l) \<in> set (leavesOf kvs) \<and> K = pathKey f p \<and> x = renameAll f l"
proof -
  from assms have "(K, x) \<in> set (writes None (puts (renamed f kvs) []))"
    using puts_set_subset [of "writes None (puts (renamed f kvs) [])" "[]"]
    by (auto simp: flatOut_def)
  then obtain q where q: "(q, x) \<in> set (leavesOf (puts (renamed f kvs) []))"
    and K: "K = pathString None q"
    by (auto simp: writes_iff)
  from leavesOf_renamed_sound [OF q] K show ?thesis
    by (auto simp: pathKey_def)
qed

lemma entriesAt_single:
  "distinct (map fst kvs) \<Longrightarrow> map_of kvs k = Some v \<Longrightarrow> entriesAt k kvs = [(k, v)]"
proof (induction kvs)
  case Nil
  then show ?case by simp
next
  case (Cons a kvs)
  obtain k' v' where a: "a = (k', v')" by (cases a)
  show ?case
  proof (cases "k' = k")
    case True
    with Cons.prems a have "v' = v" and "k \<notin> fst ` set kvs" by auto
    then have "filter (\<lambda>(key, v). key = k) kvs = []"
      by (force simp: filter_empty_conv)
    with True a \<open>v' = v\<close> show ?thesis by (simp add: entriesAt_def)
  next
    case False
    with Cons a show ?thesis by (simp add: entriesAt_def)
  qed
qed

lemma joinSpace_Cons2: "joinSpace ((q @ CHR '' '' # k) # ks) = joinSpace (q # k # ks)"
  by (cases ks) simp_all

lemma pathString_Some: "q \<noteq> [] \<Longrightarrow> pathString (Some q) p = joinSpace (q # p)"
proof (induction p arbitrary: q)
  case Nil
  then show ?case by simp
next
  case (Cons k ks)
  then have "pathString (Some (q @ '' '' @ k)) ks = joinSpace ((q @ '' '' @ k) # ks)"
    by simp
  with Cons.prems show ?case
    by (simp add: newKey_def joinSpace_Cons2 del: joinSpace.simps)
qed

lemma pathString_joinSpace:
  "p \<noteq> [] \<Longrightarrow> hd p \<noteq> [] \<Longrightarrow> pathString None p = joinSpace p"
  by (cases p) (simp_all add: newKey_def pathString_Some)

lemma renameAll_scalar: "\<not> isObject v \<Longrightarrow> renameAll f v = v"
  by (cases v) simp_all

subsection \<open>When \<open>makeFlatStartCaseObject\<close> throws\<close>

lemma makeFlat_Obj:
  "\<not> shadowed (Obj kvs) \<Longrightarrow>
   makeFlatStartCaseObject sc (Obj kvs) = Inr (Obj (flatOut (renameKey sc) kvs))"
  by (simp add: deepMapKeys_eq renameAll_Obj flatten_def step_puts flatOut_def
      del: deepMapKeys.simps renameAll.simps shadowed.simps)

lemma makeFlat_shadowed:
  "shadowed x \<Longrightarrow> makeFlatStartCaseObject sc x = Inl TypeError"
proof (induction sc x rule: makeFlatStartCaseObject.induct)
  case (2 sc xs)
  then obtain x where x: "x \<in> set xs" and sx: "shadowed x" by auto
  from sx have "isObject x" by (cases x) simp_all
  with "2.IH" x sx have
    "isl (if isObject x then makeFlatStartCaseObject sc x else Inr x)" by simp
  with x have "mapE (\<lambda>property. if isObject property then makeFlatStartCaseObject sc property
      else Inr property) xs = Inl TypeError"
    by (rule mapE_Inl)
  then show ?case by simp
next
  case (3 sc kvs)
  then show ?case
    by (simp add: deepMapKeys_eq del: deepMapKeys.simps shadowed.simps)
qed simp_all

lemma makeFlat_returns:
  "\<not> shadowed x \<Longrightarrow> \<exists>y. makeFlatStartCaseObject sc x = Inr y"
proof (induction sc x rule: makeFlatStartCaseObject.induct)
  case (2 sc xs)
  have "\<exists>y. (if isObject x then makeFlatStartCaseObject sc x else Inr x) = Inr y"
    if "x \<in> set xs" for x
    using "2.IH" [OF that] "2.prems" that by auto
  then obtain h where
    "\<And>x. x \<in> set xs \<Longrightarrow>
       (if isObject x then makeFlatStartCaseObject sc x else Inr x) = Inr (h x)"
    by metis
  then have "mapE (\<lambda>property. if isObject property then makeFlatStartCaseObject sc property
      else Inr property) xs = Inr (map h xs)"
    by (rule mapE_Inr)
  then show ?case by simp
next
  case (3 sc kvs)
  then show ?case
    by (simp add: makeFlat_Obj del: makeFlatStartCaseObject.simps shadowed.simps)
qed simp_all

subsection \<open>A leaf whose path is clear\<close>

lemma descends_renameAll: "descends (renameAll f v) = descends v"
proof (cases v rule: descends.cases)
  case (1 kv kvs)
  have "puts (renamed f (kv # kvs)) [] \<noteq> []"
    by (rule puts_not_Nil) (simp add: renamed_def)
  with 1 show ?thesis
    by (cases "puts (renamed f (kv # kvs)) []")
       (simp_all add: renameAll_Obj del: renameAll.simps)
qed (simp_all add: renamed_def)

lemma sole_renamed:
  assumes "(k, v) \<in> set kvs"
    and "length (filter (\<lambda>(k', v'). f k' = f k) kvs) = 1"
  shows "(f k, renameAll f v) \<in> set (puts (renamed f kvs) [])"
proof -
  from assms(2) obtain w where w: "filter (\<lambda>(k', v'). f k' = f k) kvs = [w]"
    by (cases "filter (\<lambda>(k', v'). f k' = f k) kvs") auto
  from assms(1) have "(k, v) \<in> set (filter (\<lambda>(k', v'). f k' = f k) kvs)" by simp
  with w have wkv: "w = (k, v)" by simp
  have only: "(k', v') = (k, v)" if "(k', v') \<in> set kvs" "f k' = f k" for k' v'
  proof -
    from that have "(k', v') \<in> set (filter (\<lambda>(k', v'). f k' = f k) kvs)" by simp
    with w wkv show ?thesis by simp
  qed
  have "map_of (puts (renamed f kvs) []) (f k) = Some (renameAll f v)"
  proof (rule map_of_puts_last)
    show "(f k, renameAll f v) \<in> set (renamed f kvs)"
      using assms(1) by (auto simp: renamed_iff)
  next
    fix x
    assume "(f k, x) \<in> set (renamed f kvs)"
    then obtain k' v' where "(k', v') \<in> set kvs" "f k = f k'" "x = renameAll f v'"
      by (auto simp: renamed_iff)
    with only [of k' v'] show "x = renameAll f v" by simp
  qed
  then show ?thesis by (rule map_of_SomeD)
qed

lemma leavesOf_renamed_complete:
  "(p, l) \<in> set (leavesOf kvs) \<Longrightarrow> pathClear f kvs p \<Longrightarrow>
   (map f p, renameAll f l) \<in> set (leavesOf (puts (renamed f kvs) []))"
proof (induction p arbitrary: kvs)
  case Nil
  then show ?case by (auto simp: leavesOf_iff)
next
  case (Cons k p)
  from Cons.prems(1) obtain v where kv: "(k, v) \<in> set kvs"
    and pl: "(p, l) \<in> set (leaves v)"
    by (auto simp: leavesOf_iff)
  from Cons.prems(2) have one: "length (filter (\<lambda>(k', v'). f k' = f k) kvs) = 1"
    by simp
  from kv one have top: "(f k, renameAll f v) \<in> set (puts (renamed f kvs) [])"
    by (rule sole_renamed)
  have "(map f p, renameAll f l) \<in> set (leaves (renameAll f v))"
  proof (cases "descends v")
    case True
    then obtain kvs' where v: "v = Obj kvs'" and ne: "kvs' \<noteq> []"
      by (cases v rule: descends.cases) auto
    from Cons.prems(2) kv v have "pathClear f kvs' p" by auto
    moreover from pl v ne have "(p, l) \<in> set (leavesOf kvs')" by (simp add: leaves_Obj)
    ultimately have "(map f p, renameAll f l) \<in> set (leavesOf (puts (renamed f kvs') []))"
      by (intro Cons.IH)
    moreover from ne have "puts (renamed f kvs') [] \<noteq> []"
      by (simp add: puts_not_Nil renamed_def)
    ultimately show ?thesis
      by (simp add: v renameAll_Obj leaves_Obj del: renameAll.simps)
  next
    case False
    with pl have "p = []" "l = v" by (simp_all add: leaves_not_descends)
    moreover from False have "\<not> descends (renameAll f v)" by (simp add: descends_renameAll)
    ultimately show ?thesis by (simp add: leaves_not_descends)
  qed
  with top show ?case by (auto simp: leavesOf_iff)
qed

lemma flatOut_leaf:
  assumes leaf: "(p, l) \<in> set (leavesOf kvs)"
    and clear: "pathClear f kvs p"
    and sole: "soleWriter f kvs (p, l)"
  shows "map_of (flatOut f kvs) (pathKey f p) = Some (renameAll f l)"
  unfolding flatOut_def
proof (rule map_of_puts_last)
  show "(pathKey f p, renameAll f l) \<in> set (writes None (puts (renamed f kvs) []))"
    using leavesOf_renamed_complete [OF leaf clear]
    by (auto simp: writes_iff pathKey_def)
next
  fix x
  assume "(pathKey f p, x) \<in> set (writes None (puts (renamed f kvs) []))"
  then obtain q where q: "(q, x) \<in> set (leavesOf (puts (renamed f kvs) []))"
    and K: "pathKey f p = pathString None q"
    by (auto simp: writes_iff)
  from leavesOf_renamed_sound [OF q] obtain p' l' where
    pl': "(p', l') \<in> set (leavesOf kvs)" and q': "q = map f p'" and x: "x = renameAll f l'"
    by blast
  from K q' have "pathKey f p' = pathKey f p" by (simp add: pathKey_def)
  with sole pl' have "(p', l') = (p, l)"
    unfolding soleWriter_def by fastforce
  with x show "x = renameAll f l" by simp
qed

lemma flatOut_entry:
  assumes "(p, l) \<in> set (leavesOf kvs)" and "pathClear f kvs p" and "soleWriter f kvs (p, l)"
  shows "entriesAt (pathKey f p) (flatOut f kvs) = [(pathKey f p, renameAll f l)]"
  by (rule entriesAt_single [OF distinct_flatOut flatOut_leaf [OF assms]])

subsection \<open>\<open>step\<close> on a value it does not descend into\<close>

lemma step_leaf:
  "\<not> descends v \<Longrightarrow>
   step prev ((key, v) # rest) out = step prev rest (setProp (newKey prev key) v out)"
  by (cases v rule: descends.cases) simp_all

lemma not_isObject_not_descends: "\<not> isObject v \<Longrightarrow> \<not> descends v"
  by (cases v) simp_all

subsection \<open>The keys that are preserved, and the keys of the renamed structure\<close>

lemma upper_chars: "map char_of [65..<91::nat] = ''ABCDEFGHIJKLMNOPQRSTUVWXYZ''"
  by code_simp

lemma isUpper_iff: "isUpper c \<longleftrightarrow> c \<in> set ''ABCDEFGHIJKLMNOPQRSTUVWXYZ''"
proof
  assume "isUpper c"
  then have "65 \<le> (of_char c :: nat) \<and> (of_char c :: nat) < 91"
    by (simp add: isUpper_def)
  then have "(of_char c :: nat) \<in> set [65..<91]"
    by (simp only: set_upt atLeastLessThan_iff)
  then have "char_of (of_char c :: nat) \<in> set (map char_of [65..<91::nat])"
    by (simp only: set_map image_eqI)
  then show "c \<in> set ''ABCDEFGHIJKLMNOPQRSTUVWXYZ''"
    by (simp only: upper_chars char_of_char)
next
  assume "c \<in> set ''ABCDEFGHIJKLMNOPQRSTUVWXYZ''"
  then show "isUpper c"
    by (auto simp: isUpper_def)
qed

lemma regexTest_iff:
  "regexTest key \<longleftrightarrow> key \<noteq> [] \<and> set key \<subseteq> set ''ABCDEFGHIJKLMNOPQRSTUVWXYZ_''"
proof -
  have split: "''ABCDEFGHIJKLMNOPQRSTUVWXYZ_'' = ''ABCDEFGHIJKLMNOPQRSTUVWXYZ'' @ ''_''"
    by simp
  have "(isUpper c \<or> c = CHR ''_'') \<longleftrightarrow> c \<in> set ''ABCDEFGHIJKLMNOPQRSTUVWXYZ_''" for c
    by (simp only: split set_append isUpper_iff Un_iff list.set insert_iff empty_iff simp_thms)
  then have "list_all (\<lambda>c. isUpper c \<or> c = CHR ''_'') key \<longleftrightarrow>
      set key \<subseteq> set ''ABCDEFGHIJKLMNOPQRSTUVWXYZ_''"
    by (simp only: list_all_iff subset_eq)
  then show ?thesis
    by (simp only: regexTest_def)
qed

lemma allKeys_Obj_iff:
  "key \<in> allKeys (Obj kvs) \<longleftrightarrow> (\<exists>k v. (k, v) \<in> set kvs \<and> (key = k \<or> key \<in> allKeys v))"
  by auto

lemma allKeys_Arr_iff: "key \<in> allKeys (Arr xs) \<longleftrightarrow> (\<exists>x \<in> set xs. key \<in> allKeys x)"
  by simp

lemma allKeys_renameAll: "allKeys (renameAll f x) \<subseteq> f ` allKeys x"
proof (induction f x rule: renameAll.induct)
  case (1 f xs)
  show ?case
  proof
    fix key
    assume "key \<in> allKeys (renameAll f (Arr xs))"
    then obtain x where x: "x \<in> set xs" and "key \<in> allKeys (renameAll f x)"
      by (auto simp only: renameAll.simps allKeys_Arr_iff set_map)
    with "1.IH" obtain k0 where "k0 \<in> allKeys x" and key: "key = f k0" by blast
    with x have "k0 \<in> allKeys (Arr xs)" by (simp only: allKeys_Arr_iff) blast
    with key show "key \<in> f ` allKeys (Arr xs)" by (rule image_eqI)
  qed
next
  case (2 f kvs)
  show ?case
  proof
    fix key
    assume "key \<in> allKeys (renameAll f (Obj kvs))"
    then have "key \<in> allKeys (Obj (puts (renamed f kvs) []))"
      by (simp only: renameAll_Obj)
    then obtain k' v' where kv': "(k', v') \<in> set (puts (renamed f kvs) [])"
      and key: "key = k' \<or> key \<in> allKeys v'"
      by (simp only: allKeys_Obj_iff) blast
    from kv' have "(k', v') \<in> set (renamed f kvs)"
      using puts_set_subset [of "renamed f kvs" "[]"] by auto
    then obtain k v where kv: "(k, v) \<in> set kvs" and k': "k' = f k"
      and v': "v' = renameAll f v"
      by (simp only: renamed_iff) blast
    from key show "key \<in> f ` allKeys (Obj kvs)"
    proof
      assume "key = k'"
      with k' have "key = f k" by simp
      moreover from kv have "k \<in> allKeys (Obj kvs)" by (simp only: allKeys_Obj_iff) blast
      ultimately show ?thesis by (rule image_eqI)
    next
      assume "key \<in> allKeys v'"
      with v' "2.IH" [OF kv refl] obtain k0 where k0: "k0 \<in> allKeys v" and "key = f k0"
        by blast
      moreover from kv k0 have "k0 \<in> allKeys (Obj kvs)" by (simp only: allKeys_Obj_iff) blast
      ultimately show ?thesis by (intro image_eqI)
    qed
  qed
qed simp_all

lemma renamed_fst: "fst ` set (renamed f kvs) = f ` fst ` set kvs"
  by (simp add: renamed_def image_image split_beta)

lemma renameAll_keys:
  "\<exists>kvs'. renameAll f (Obj kvs) = Obj kvs' \<and> set (map fst kvs') = f ` set (map fst kvs)"
  by (simp add: renameAll_Obj puts_keys renamed_fst del: renameAll.simps)

subsection \<open>What holds when nothing is thrown\<close>

lemma not_isObject_not_shadowed: "\<not> isObject v \<Longrightarrow> \<not> shadowed v"
  by (cases v) simp_all

lemma shadowed_leaves: "(p, l) \<in> set (leaves x) \<Longrightarrow> shadowed l \<Longrightarrow> shadowed x"
proof (induction x arbitrary: p rule: leaves.induct)
  case (1 kv kvs)
  from "1.prems"(1) obtain k v p0 where kv: "(k, v) \<in> set (kv # kvs)"
    and pl: "(p0, l) \<in> set (leaves v)"
    by (auto simp: leaves_Obj leavesOf_iff simp del: leaves.simps)
  from "1.IH" [OF kv refl pl "1.prems"(2)] have "shadowed v" .
  with kv show ?case by (simp del: set_simps) blast
qed simp_all

lemma shadowed_leavesOf:
  assumes "(p, l) \<in> set (leavesOf kvs)" and "\<not> shadowed (Obj kvs)"
  shows "\<not> shadowed l"
proof
  assume sl: "shadowed l"
  from assms(1) have "kvs \<noteq> []" by auto
  with assms(1) have "(p, l) \<in> set (leaves (Obj kvs))" by (simp add: leaves_Obj)
  from shadowed_leaves [OF this sl] assms(2) show False by simp
qed

lemma makeFlat_throws_iff: "makeFlatStartCaseObject sc x = Inl TypeError \<longleftrightarrow> shadowed x"
proof
  assume t: "makeFlatStartCaseObject sc x = Inl TypeError"
  show "shadowed x"
  proof (rule ccontr)
    assume "\<not> shadowed x"
    from makeFlat_returns [OF this, of sc] t show False by simp
  qed
next
  assume "shadowed x"
  then show "makeFlatStartCaseObject sc x = Inl TypeError" by (rule makeFlat_shadowed)
qed

lemma array_input:
  assumes "\<not> shadowed (Arr xs)"
  shows "\<exists>ys. makeFlatStartCaseObject sc (Arr xs) = Inr (Arr ys) \<and> length ys = length xs \<and>
     (\<forall>i < length xs.
        if isObject (xs ! i) then makeFlatStartCaseObject sc (xs ! i) = Inr (ys ! i)
        else ys ! i = xs ! i)"
proof -
  from makeFlat_returns [OF assms, of sc] obtain y where
    y: "makeFlatStartCaseObject sc (Arr xs) = Inr y" by blast
  then obtain ys where m: "mapE (\<lambda>property. if isObject property
      then makeFlatStartCaseObject sc property else Inr property) xs = Inr ys"
    and "y = Arr ys"
    by (auto split: sum.splits)
  from m have l: "list_all2 (\<lambda>x y. (if isObject x then makeFlatStartCaseObject sc x else Inr x) = Inr y)
      xs ys"
    by (simp only: mapE_list_all2)
  then have "length ys = length xs" by (simp add: list_all2_lengthD)
  moreover have "if isObject (xs ! i) then makeFlatStartCaseObject sc (xs ! i) = Inr (ys ! i)
        else ys ! i = xs ! i" if "i < length xs" for i
    using list_all2_nthD [OF l that] by (auto split: if_splits)
  ultimately show ?thesis using y \<open>y = Arr ys\<close> by blast
qed

lemma key_renaming_rule:
  "(regexTest key \<longleftrightarrow> key \<noteq> [] \<and> set key \<subseteq> set ''ABCDEFGHIJKLMNOPQRSTUVWXYZ_'') \<and>
   (regexTest key \<longrightarrow> renameKey sc key = key) \<and>
   (\<not> regexTest key \<longrightarrow> renameKey sc key = sc key) \<and>
   (\<not> shadowed (Obj kvs) \<longrightarrow>
      (\<exists>kvs'. deepMapKeys (renameKey sc) (Obj kvs) = Inr (Obj kvs') \<and>
         set (map fst kvs') = renameKey sc ` set (map fst kvs))) \<and>
   (\<not> shadowed x \<longrightarrow>
      (\<exists>y. deepMapKeys (renameKey sc) x = Inr y \<and> allKeys y \<subseteq> renameKey sc ` allKeys x)) \<and>
   makeFlatStartCaseObject sc (Obj [(''FOO_BAR'', Num 1)]) = Inr (Obj [(''FOO_BAR'', Num 1)])"
proof (intro conjI)
  show "regexTest key \<longleftrightarrow> key \<noteq> [] \<and> set key \<subseteq> set ''ABCDEFGHIJKLMNOPQRSTUVWXYZ_''"
    by (rule regexTest_iff)
  show "regexTest key \<longrightarrow> renameKey sc key = key"
    by (simp add: renameKey_def)
  show "\<not> regexTest key \<longrightarrow> renameKey sc key = sc key"
    by (simp add: renameKey_def)
  show "\<not> shadowed (Obj kvs) \<longrightarrow>
      (\<exists>kvs'. deepMapKeys (renameKey sc) (Obj kvs) = Inr (Obj kvs') \<and>
         set (map fst kvs') = renameKey sc ` set (map fst kvs))"
    using renameAll_keys [of "renameKey sc" kvs]
    by (auto simp: deepMapKeys_eq simp del: deepMapKeys.simps renameAll.simps shadowed.simps)
  show "\<not> shadowed x \<longrightarrow>
      (\<exists>y. deepMapKeys (renameKey sc) x = Inr y \<and> allKeys y \<subseteq> renameKey sc ` allKeys x)"
    using allKeys_renameAll [of "renameKey sc" x]
    by (simp add: deepMapKeys_eq)
  have "regexTest ''FOO_BAR''" by code_simp
  then have "renameKey sc ''FOO_BAR'' = ''FOO_BAR''" by (simp add: renameKey_def)
  moreover have "\<not> isArrayIndex ''FOO_BAR''" by code_simp
  moreover have "\<not> hasOwn [(''FOO_BAR'', Num 1)] ''hasOwnProperty''" by code_simp
  ultimately show "makeFlatStartCaseObject sc (Obj [(''FOO_BAR'', Num 1)]) =
      Inr (Obj [(''FOO_BAR'', Num 1)])"
    by (simp add: setProp_def flatten_def newKey_def)
qed

subsection \<open>Paths and \<open>deepMapValues\<close>\<close>

lemma basename_no_sep: "c \<in> set (basename pf p) \<Longrightarrow> \<not> isSep pf c"
  unfolding basename_def by (auto dest: set_takeWhileD)

lemma basename_decomp:
  "\<exists>d t. afterDrive pf p = d @ basename pf p @ t \<and> (\<forall>c \<in> set t. isSep pf c) \<and>
     (d = [] \<or> isSep pf (last d))"
proof -
  let ?q = "rev (afterDrive pf p)"
  let ?t = "takeWhile (isSep pf) ?q"
  let ?r = "dropWhile (isSep pf) ?q"
  let ?b = "takeWhile (\<lambda>c. \<not> isSep pf c) ?r"
  let ?d = "dropWhile (\<lambda>c. \<not> isSep pf c) ?r"
  have "?q = ?t @ ?b @ ?d" by simp
  then have "rev ?q = rev ?d @ rev ?b @ rev ?t" by (metis rev_append append_assoc)
  then have 1: "afterDrive pf p = rev ?d @ basename pf p @ rev ?t"
    by (simp add: basename_def)
  have 2: "\<forall>c \<in> set (rev ?t). isSep pf c"
    by (auto dest: set_takeWhileD)
  have 3: "rev ?d = [] \<or> isSep pf (last (rev ?d))"
  proof (cases "?d = []")
    case True
    then show ?thesis by simp
  next
    case False
    then have "isSep pf (hd ?d)" using hd_dropWhile [of "\<lambda>c. \<not> isSep pf c" ?r] by simp
    with False show ?thesis by (simp add: last_rev)
  qed
  from 1 2 3 show ?thesis by blast
qed

lemma no_sep_not_absolute:
  assumes "\<And>c. c \<in> set b \<Longrightarrow> \<not> isSep pf c"
  shows "\<not> isAbsolute pf b"
proof (cases b)
  case Nil
  then show ?thesis by simp
next
  case (Cons c cs)
  with assms have c: "\<not> isSep pf c" by simp
  show ?thesis
  proof (cases pf)
    case Posix
    with c Cons show ?thesis by (simp add: isSep_def)
  next
    case Win32
    have "\<not> isSep Win32 c2" if "cs = c1 # c2 # rest" for c1 c2 rest
      using assms [of c2] that Cons Win32 by simp
    with c Cons Win32 show ?thesis
      by (auto split: list.splits)
  qed
qed

lemma hidePath_idem: "hidePath pf (hidePath pf v) = hidePath pf v"
proof (cases v)
  case (Str s)
  have "\<not> isAbsolute pf (basename pf s)"
    by (rule no_sep_not_absolute) (rule basename_no_sep)
  with Str show ?thesis by simp
qed simp_all

lemma hidePath_isObject: "isObject (hidePath pf v) = isObject v"
  by (cases v) simp_all

lemma deepMapValues_scalar: "\<not> isObject v \<Longrightarrow> deepMapValues callback v = callback v"
  by (cases v) simp_all

lemma deepMapValues_idem:
  "(\<forall>v. callback (callback v) = callback v) \<Longrightarrow>
   (\<forall>v. isObject (callback v) = isObject v) \<Longrightarrow>
   deepMapValues callback (deepMapValues callback x) = deepMapValues callback x"
proof (induction callback x rule: deepMapValues.induct)
  case (1 callback xs)
  then show ?case by simp
next
  case (2 callback kvs)
  then show ?case by (auto simp: case_prod_unfold)
qed (simp_all add: deepMapValues_scalar)

lemma map_of_mapped:
  "map_of (map (\<lambda>(key, v). (key, g v)) kvs) k = map_option g (map_of kvs k)"
  by (induction kvs) auto

lemma valueAt_deepMapValues:
  "valueAt x p = Some l \<Longrightarrow> \<not> isObject l \<Longrightarrow>
   valueAt (deepMapValues callback x) p = Some (callback l)"
proof (induction x p rule: valueAt.induct)
  case (1 v)
  then show ?case by (simp add: deepMapValues_scalar)
next
  case (2 kvs k p)
  then show ?case by (auto simp: map_of_mapped split: option.splits)
next
  case (3 xs i p)
  then show ?case by (auto split: if_splits)
qed simp_all

lemma sameShape_deepMapValues:
  "(\<forall>v. \<not> isObject v \<longrightarrow> sameShape q v (callback v)) \<Longrightarrow>
   sameShape q x (deepMapValues callback x)"
proof (induction callback x rule: deepMapValues.induct)
  case (1 callback xs)
  then show ?case by (simp add: list_all2_map2 list_all2_same)
next
  case (2 callback kvs)
  then show ?case by (auto simp: list_all2_map2 list_all2_same)
qed (simp_all del: sameShape.simps)

lemma sameShape_hidePath: "\<not> isObject v \<Longrightarrow> sameShape (qualifies pf) v (hidePath pf v)"
  by (cases v) (simp_all add: qualifies_def)

lemma hide_johnsImages: "hideAbsolutePathsInObject Posix johnsImages = johnsImagesHidden"
  by code_simp

section \<open>The claims\<close>

subsection \<open>Absent and scalar inputs\<close>

text \<open>
  Claim C7. \<open>makeFlatStartCaseObject\<close> returns an absent (\<open>undefined\<close>) input as it is, and
  turns every input \<open>x\<close> that is a string, a number, a boolean or \<open>null\<close> (not \<open>undefined\<close>,
  and not an object for \<open>_.isObject\<close>) into the mapping with the single entry \<open>Value: x\<close>.
\<close>

theorem makeFlat_absent_and_scalar:
  "makeFlatStartCaseObject sc Undefined = Inr Undefined \<and>
   (x \<noteq> Undefined \<and> \<not> isObject x \<longrightarrow>
      makeFlatStartCaseObject sc x = Inr (Obj [(''Value'', x)]))"
  by (cases x) simp_all

theorem makeFlat_absent_and_scalar_witness:
  "makeFlatStartCaseObject startCase Undefined = Inr Undefined \<and>
   makeFlatStartCaseObject startCase (Num 5) = Inr (Obj [(''Value'', Num 5)]) \<and>
   makeFlatStartCaseObject startCase Null = Inr (Obj [(''Value'', Null)]) \<and>
   makeFlatStartCaseObject startCase (Bool False) = Inr (Obj [(''Value'', Bool False)]) \<and>
   makeFlatStartCaseObject startCase (Str ''etcher'') = Inr (Obj [(''Value'', Str ''etcher'')])"
  using makeFlat_absent_and_scalar [of startCase "Num 5"]
    makeFlat_absent_and_scalar [of startCase Null]
    makeFlat_absent_and_scalar [of startCase "Bool False"]
    makeFlat_absent_and_scalar [of startCase "Str ''etcher''"]
  by simp

subsection \<open>Leaves of a mapping input\<close>

text \<open>
  Claim C1, as amended. Let \<open>v\<close> be a scalar leaf (a string, a number, a boolean, \<open>null\<close>
  or \<open>undefined\<close>) of a mapping input, reached through mappings only at the key path
  \<open>p = [k1, ..., kn]\<close>. Provided that no mapping of the input, at any depth, has a key
  \<open>hasOwnProperty\<close>; that along the key path no other key of the same mapping is renamed
  to the same key; that no other leaf has the same path-string; and that the renamed
  \<open>k1\<close> is not empty: \<open>makeFlatStartCaseObject\<close> returns a mapping that has exactly one
  entry whose key is the space-joined sequence of the renamed (start-cased or preserved)
  \<open>k1, ..., kn\<close>, and its value is \<open>v\<close>.
\<close>

theorem leaf_entry:
  assumes "\<not> shadowed (Obj kvs)"
    and "(p, v) \<in> set (leavesOf kvs)"
    and "\<not> isObject v"
    and "pathClear (renameKey sc) kvs p"
    and "soleWriter (renameKey sc) kvs (p, v)"
    and "renameKey sc (hd p) \<noteq> []"
  shows "\<exists>out. makeFlatStartCaseObject sc (Obj kvs) = Inr (Obj out) \<and>
           entriesAt (joinSpace (map (renameKey sc) p)) out =
             [(joinSpace (map (renameKey sc) p), v)]"
proof -
  from assms(2) have "p \<noteq> []" by (auto simp: leavesOf_iff)
  with assms(6) have "pathKey (renameKey sc) p = joinSpace (map (renameKey sc) p)"
    by (simp add: pathKey_def pathString_joinSpace hd_map)
  moreover have "entriesAt (pathKey (renameKey sc) p) (flatOut (renameKey sc) kvs) =
      [(pathKey (renameKey sc) p, renameAll (renameKey sc) v)]"
    using assms(2,4,5) by (rule flatOut_entry)
  ultimately show ?thesis
    using assms(3)
    by (simp add: makeFlat_Obj [OF assms(1)] renameAll_scalar
        del: makeFlatStartCaseObject.simps)
qed

text \<open>
  The witness: the leaf \<open>recommendedSize\<close> of the image of the function's own example, in an
  input where two keys of another mapping (\<open>a\<close> and \<open>A\<close> under \<open>labels\<close>) are renamed alike.
\<close>

theorem leaf_entry_witness:
  "\<exists>out. makeFlatStartCaseObject startCase
       (Obj [(''image'', Obj [(''size'', Num 10000000000), (''recommendedSize'', Num 20000000000)]),
             (''labels'', Obj [(''a'', Str ''x''), (''A'', Str ''y'')])])
       = Inr (Obj out) \<and>
     entriesAt ''Image Recommended Size'' out = [(''Image Recommended Size'', Num 20000000000)]"
proof -
  let ?kvs = "[(''image'', Obj [(''size'', Num 10000000000), (''recommendedSize'', Num 20000000000)]),
               (''labels'', Obj [(''a'', Str ''x''), (''A'', Str ''y'')])]"
  let ?p = "[''image'', ''recommendedSize'']"
  have 1: "\<not> shadowed (Obj ?kvs)" by code_simp
  have 2: "(?p, Num 20000000000) \<in> set (leavesOf ?kvs)" by code_simp
  have 3: "\<not> isObject (Num 20000000000)" by simp
  have 4: "pathClear (renameKey startCase) ?kvs ?p" by code_simp
  have 5: "soleWriter (renameKey startCase) ?kvs (?p, Num 20000000000)" by code_simp
  have 6: "renameKey startCase (hd ?p) \<noteq> []" by code_simp
  have 7: "joinSpace (map (renameKey startCase) ?p) = ''Image Recommended Size''" by code_simp
  show ?thesis
    using leaf_entry [OF 1 2 3 4 5 6] unfolding 7 .
qed

text \<open>
  Claim C1 as stated, for every leaf and with no proviso, fails on
  \<open>{a: {x: 1}, A: {y: 2}, b: {c: 3}, 'b c': 4, '-': {d: 5}}\<close>. The keys \<open>a\<close> and \<open>A\<close> are both
  renamed to \<open>A\<close>, and \<open>deepMapKeys\<close> keeps the later value only: the leaf \<open>1\<close> has no entry
  \<open>A X\<close>. The leaves \<open>3\<close> and \<open>4\<close> have the same path-string \<open>B C\<close>: the entry holds \<open>4\<close>. The key
  \<open>-\<close> has the start case \<open>''\<close>, an empty \<open>prev\<close> is dropped by \<open>step\<close>, and the leaf \<open>5\<close> is
  written at \<open>D\<close>: there is no entry at the space-joined \<open>' D'\<close>.
\<close>

theorem leaf_entry_counterexample:
  "makeFlatStartCaseObject startCase
     (Obj [(''a'', Obj [(''x'', Num 1)]), (''A'', Obj [(''y'', Num 2)]),
           (''b'', Obj [(''c'', Num 3)]), (''b c'', Num 4), (''-'', Obj [(''d'', Num 5)])])
     = Inr (Obj [(''A Y'', Num 2), (''B C'', Num 4), (''D'', Num 5)]) \<and>
   leavesOf [(''a'', Obj [(''x'', Num 1)]), (''A'', Obj [(''y'', Num 2)]),
             (''b'', Obj [(''c'', Num 3)]), (''b c'', Num 4), (''-'', Obj [(''d'', Num 5)])]
     = [([''a'', ''x''], Num 1), ([''A'', ''y''], Num 2), ([''b'', ''c''], Num 3),
        ([''b c''], Num 4), ([''-'', ''d''], Num 5)] \<and>
   joinSpace (map (renameKey startCase) [''a'', ''x'']) = ''A X'' \<and>
   entriesAt ''A X'' [(''A Y'', Num 2), (''B C'', Num 4), (''D'', Num 5)] = [] \<and>
   joinSpace (map (renameKey startCase) [''b'', ''c'']) = ''B C'' \<and>
   entriesAt ''B C'' [(''A Y'', Num 2), (''B C'', Num 4), (''D'', Num 5)] = [(''B C'', Num 4)] \<and>
   joinSpace (map (renameKey startCase) [''-'', ''d'']) = '' D'' \<and>
   entriesAt '' D'' [(''A Y'', Num 2), (''B C'', Num 4), (''D'', Num 5)] = []"
  by code_simp

subsection \<open>Empty and absent branches\<close>

text \<open>
  Claim C3, as amended. For every mapping input in which no mapping, at any depth, has a
  key \<open>hasOwnProperty\<close>, \<open>makeFlatStartCaseObject\<close> returns a mapping. A branch \<open>e\<close> of the
  input that is an empty mapping or an absent (\<open>undefined\<close>) value, at the key path \<open>p\<close>, is
  not omitted: provided that along \<open>p\<close> no other key of the same mapping is renamed to
  the same key and that no other leaf has the path-string of \<open>p\<close>, the output has
  exactly one entry at the path-string of \<open>p\<close>, and its value is \<open>e\<close>. The data of the other
  branches is not dropped: a scalar leaf \<open>v\<close> at the key path \<open>q\<close>, with the same two provisos
  for \<open>q\<close>, has exactly one entry at the path-string of \<open>q\<close>, with the value \<open>v\<close>.
\<close>

theorem empty_branch_kept:
  assumes "\<not> shadowed (Obj kvs)"
  shows "\<exists>out. makeFlatStartCaseObject sc (Obj kvs) = Inr (Obj out) \<and>
     ((p, e) \<in> set (leavesOf kvs) \<and> (e = Obj [] \<or> e = Undefined) \<and>
      pathClear (renameKey sc) kvs p \<and> soleWriter (renameKey sc) kvs (p, e) \<longrightarrow>
        entriesAt (pathKey (renameKey sc) p) out = [(pathKey (renameKey sc) p, e)]) \<and>
     ((q, v) \<in> set (leavesOf kvs) \<and> \<not> isObject v \<and>
      pathClear (renameKey sc) kvs q \<and> soleWriter (renameKey sc) kvs (q, v) \<longrightarrow>
        entriesAt (pathKey (renameKey sc) q) out = [(pathKey (renameKey sc) q, v)])"
proof -
  have "entriesAt (pathKey (renameKey sc) p) (flatOut (renameKey sc) kvs) =
      [(pathKey (renameKey sc) p, e)]"
    if "(p, e) \<in> set (leavesOf kvs)" "e = Obj [] \<or> e = Undefined"
      "pathClear (renameKey sc) kvs p" "soleWriter (renameKey sc) kvs (p, e)"
  proof -
    from that(2) have "renameAll (renameKey sc) e = e" by auto
    with flatOut_entry [OF that(1,3,4)] show ?thesis by simp
  qed
  moreover have "entriesAt (pathKey (renameKey sc) q) (flatOut (renameKey sc) kvs) =
      [(pathKey (renameKey sc) q, v)]"
    if "(q, v) \<in> set (leavesOf kvs)" "\<not> isObject v"
      "pathClear (renameKey sc) kvs q" "soleWriter (renameKey sc) kvs (q, v)"
    using flatOut_entry [OF that(1,3,4)] that(2) by (simp add: renameAll_scalar)
  ultimately show ?thesis
    by (simp add: makeFlat_Obj [OF assms] del: makeFlatStartCaseObject.simps)
qed

text \<open>The witnesses: \<open>{a: {}}\<close>, and an input with an empty, an absent and a scalar leaf.\<close>

theorem empty_branch_kept_witness:
  "(\<exists>out. makeFlatStartCaseObject startCase (Obj [(''a'', Obj [])]) = Inr (Obj out) \<and>
      entriesAt ''A'' out = [(''A'', Obj [])]) \<and>
   (\<exists>out. makeFlatStartCaseObject startCase
       (Obj [(''drive'', Obj []), (''image'', Obj [(''path'', Undefined), (''size'', Num 512)])])
       = Inr (Obj out) \<and>
     entriesAt ''Drive'' out = [(''Drive'', Obj [])] \<and>
     entriesAt ''Image Path'' out = [(''Image Path'', Undefined)] \<and>
     entriesAt ''Image Size'' out = [(''Image Size'', Num 512)])"
proof
  let ?a = "[(''a'', Obj [])]"
  have 1: "\<not> shadowed (Obj ?a)" by code_simp
  have 2: "([''a''], Obj []) \<in> set (leavesOf ?a) \<and> (Obj [] = Obj [] \<or> Obj [] = Undefined) \<and>
      pathClear (renameKey startCase) ?a [''a''] \<and>
      soleWriter (renameKey startCase) ?a ([''a''], Obj [])" by code_simp
  have 3: "pathKey (renameKey startCase) [''a''] = ''A''" by code_simp
  from empty_branch_kept [OF 1, of startCase "[''a'']" "Obj []"] 2
  show "\<exists>out. makeFlatStartCaseObject startCase (Obj ?a) = Inr (Obj out) \<and>
      entriesAt ''A'' out = [(''A'', Obj [])]"
    unfolding 3 by blast
next
  let ?kvs = "[(''drive'', Obj []), (''image'', Obj [(''path'', Undefined), (''size'', Num 512)])]"
  have 1: "\<not> shadowed (Obj ?kvs)" by code_simp
  have 2: "([''drive''], Obj []) \<in> set (leavesOf ?kvs) \<and> (Obj [] = Obj [] \<or> Obj [] = Undefined) \<and>
      pathClear (renameKey startCase) ?kvs [''drive''] \<and>
      soleWriter (renameKey startCase) ?kvs ([''drive''], Obj [])" by code_simp
  have 3: "([''image'', ''path''], Undefined) \<in> set (leavesOf ?kvs) \<and>
      (Undefined = Obj [] \<or> Undefined = Undefined) \<and>
      pathClear (renameKey startCase) ?kvs [''image'', ''path''] \<and>
      soleWriter (renameKey startCase) ?kvs ([''image'', ''path''], Undefined)" by code_simp
  have 4: "([''image'', ''size''], Num 512) \<in> set (leavesOf ?kvs) \<and> \<not> isObject (Num 512) \<and>
      pathClear (renameKey startCase) ?kvs [''image'', ''size''] \<and>
      soleWriter (renameKey startCase) ?kvs ([''image'', ''size''], Num 512)" by code_simp
  have 5: "pathKey (renameKey startCase) [''drive''] = ''Drive''" by code_simp
  have 6: "pathKey (renameKey startCase) [''image'', ''path''] = ''Image Path''" by code_simp
  have 7: "pathKey (renameKey startCase) [''image'', ''size''] = ''Image Size''" by code_simp
  from empty_branch_kept [OF 1, of startCase "[''drive'']" "Obj []" "[''image'', ''size'']" "Num 512"]
    2 4
  obtain out where out: "makeFlatStartCaseObject startCase (Obj ?kvs) = Inr (Obj out)"
    and d: "entriesAt ''Drive'' out = [(''Drive'', Obj [])]"
    and s: "entriesAt ''Image Size'' out = [(''Image Size'', Num 512)]"
    unfolding 5 7 by blast
  from empty_branch_kept [OF 1, of startCase "[''image'', ''path'']" Undefined "[]" Null] 3
  obtain out' where "makeFlatStartCaseObject startCase (Obj ?kvs) = Inr (Obj out')"
    and "entriesAt ''Image Path'' out' = [(''Image Path'', Undefined)]"
    unfolding 6 by blast
  with out d s show "\<exists>out. makeFlatStartCaseObject startCase (Obj ?kvs) = Inr (Obj out) \<and>
     entriesAt ''Drive'' out = [(''Drive'', Obj [])] \<and>
     entriesAt ''Image Path'' out = [(''Image Path'', Undefined)] \<and>
     entriesAt ''Image Size'' out = [(''Image Size'', Num 512)]"
    by simp
qed

text \<open>
  Claim C3 as stated says that no entry appears for an empty or absent branch. On
  \<open>{a: {}, b: 1, c: undefined}\<close> the output is \<open>{A: {}, B: 1, C: undefined}\<close>: \<open>step\<close> descends
  only into an object that has a key, and assigns every other value to the output.
\<close>

theorem empty_branch_counterexample:
  "makeFlatStartCaseObject startCase
     (Obj [(''a'', Obj []), (''b'', Num 1), (''c'', Undefined)])
   = Inr (Obj [(''A'', Obj []), (''B'', Num 1), (''C'', Undefined)])"
  by code_simp

subsection \<open>Sequences inside a mapping input\<close>

text \<open>
  Claim C10, as amended. For every mapping input in which no mapping, at any depth, has a
  key \<open>hasOwnProperty\<close>, \<open>makeFlatStartCaseObject\<close> returns a mapping, and every entry of it
  has as its key the path-string of a key path that leads through mappings only to a
  leaf of the input, and as its value what \<open>deepMapKeys\<close> returns for that leaf (the leaf
  with the keys inside it renamed): no path-string extends into a sequence, by an index
  or by a key of a mapping inside the sequence. And where the input has a sequence \<open>xs\<close>
  at the key path \<open>p\<close>, provided that along \<open>p\<close> no other key of the same mapping is renamed
  to the same key and that no other leaf has the path-string of \<open>p\<close>, the output has
  exactly one entry at the path-string of \<open>p\<close>, and its value is the sequence of the same
  length that \<open>deepMapKeys\<close> returns for \<open>xs\<close>: \<open>xs\<close> with the keys of the mappings inside it
  renamed.
\<close>

theorem sequence_kept_whole:
  assumes "\<not> shadowed (Obj kvs)"
  shows "\<exists>out. makeFlatStartCaseObject sc (Obj kvs) = Inr (Obj out) \<and>
     (\<forall>(key, x) \<in> set out. \<exists>(q, l) \<in> set (leavesOf kvs).
         key = pathKey (renameKey sc) q \<and> deepMapKeys (renameKey sc) l = Inr x) \<and>
     ((p, Arr xs) \<in> set (leavesOf kvs) \<and> pathClear (renameKey sc) kvs p \<and>
      soleWriter (renameKey sc) kvs (p, Arr xs) \<longrightarrow>
        (\<exists>ys. deepMapKeys (renameKey sc) (Arr xs) = Inr (Arr ys) \<and> length ys = length xs \<and>
           entriesAt (pathKey (renameKey sc) p) out = [(pathKey (renameKey sc) p, Arr ys)]))"
proof -
  have leaf: "deepMapKeys (renameKey sc) l = Inr (renameAll (renameKey sc) l)"
    if "(q, l) \<in> set (leavesOf kvs)" for q l
    using shadowed_leavesOf [OF that assms] by (simp add: deepMapKeys_eq)
  have "\<forall>(key, x) \<in> set (flatOut (renameKey sc) kvs). \<exists>(q, l) \<in> set (leavesOf kvs).
      key = pathKey (renameKey sc) q \<and> deepMapKeys (renameKey sc) l = Inr x"
  proof (clarify)
    fix key x
    assume "(key, x) \<in> set (flatOut (renameKey sc) kvs)"
    from flatOut_sound [OF this] obtain q l where ql: "(q, l) \<in> set (leavesOf kvs)"
      and "key = pathKey (renameKey sc) q" and "x = renameAll (renameKey sc) l"
      by blast
    with leaf [OF ql] show "\<exists>(q, l) \<in> set (leavesOf kvs).
        key = pathKey (renameKey sc) q \<and> deepMapKeys (renameKey sc) l = Inr x"
      by (intro bexI [of _ "(q, l)"]) simp_all
  qed
  moreover have "\<exists>ys. deepMapKeys (renameKey sc) (Arr xs) = Inr (Arr ys) \<and>
      length ys = length xs \<and>
      entriesAt (pathKey (renameKey sc) p) (flatOut (renameKey sc) kvs) =
        [(pathKey (renameKey sc) p, Arr ys)]"
    if "(p, Arr xs) \<in> set (leavesOf kvs)" "pathClear (renameKey sc) kvs p"
      "soleWriter (renameKey sc) kvs (p, Arr xs)"
    using flatOut_entry [OF that] leaf [OF that(1)]
    by (intro exI [of _ "map (renameAll (renameKey sc)) xs"]) simp
  ultimately show ?thesis
    by (simp add: makeFlat_Obj [OF assms] del: makeFlatStartCaseObject.simps deepMapKeys.simps)
qed

theorem sequence_kept_whole_witness:
  "\<exists>out. makeFlatStartCaseObject startCase
       (Obj [(''drive'', Obj [(''values'', Arr [Num 1, Num 2, Obj [(''nested'', Num 3)]])])])
       = Inr (Obj out) \<and>
     entriesAt ''Drive Values'' out =
       [(''Drive Values'', Arr [Num 1, Num 2, Obj [(''Nested'', Num 3)]])]"
proof -
  let ?kvs = "[(''drive'', Obj [(''values'', Arr [Num 1, Num 2, Obj [(''nested'', Num 3)]])])]"
  let ?p = "[''drive'', ''values'']"
  let ?xs = "[Num 1, Num 2, Obj [(''nested'', Num 3)]]"
  have s: "\<not> shadowed (Obj ?kvs)" by code_simp
  have h: "(?p, Arr ?xs) \<in> set (leavesOf ?kvs) \<and> pathClear (renameKey startCase) ?kvs ?p \<and>
      soleWriter (renameKey startCase) ?kvs (?p, Arr ?xs)"
    by code_simp
  have k: "pathKey (renameKey startCase) ?p = ''Drive Values''" by code_simp
  have v: "deepMapKeys (renameKey startCase) (Arr ?xs) =
      Inr (Arr [Num 1, Num 2, Obj [(''Nested'', Num 3)]])"
    by code_simp
  from sequence_kept_whole [OF s, of startCase ?p ?xs] h obtain out ys where
    "makeFlatStartCaseObject startCase (Obj ?kvs) = Inr (Obj out)"
    "deepMapKeys (renameKey startCase) (Arr ?xs) = Inr (Arr ys)"
    "entriesAt ''Drive Values'' out = [(''Drive Values'', Arr ys)]"
    unfolding k by blast
  with v show ?thesis by simp
qed

text \<open>
  Claim C10 as stated, for every mapping input with a sequence at a key, fails on
  \<open>{a: [1], A: 2}\<close>: both keys are renamed to \<open>A\<close>, and the output \<open>{A: 2}\<close> does not hold the
  sequence.
\<close>

theorem sequence_kept_whole_counterexample:
  "makeFlatStartCaseObject startCase (Obj [(''a'', Arr [Num 1]), (''A'', Num 2)])
   = Inr (Obj [(''A'', Num 2)])"
  by code_simp

subsection \<open>The example of the documentation\<close>

text \<open>
  Claim C4. For all scalar values \<open>s\<close> and \<open>r\<close> (values that are not objects for
  \<open>_.isObject\<close>), \<open>makeFlatStartCaseObject\<close> turns \<open>{image: {size: s, recommendedSize: r}}\<close>
  into exactly \<open>{'Image Size': s, 'Image Recommended Size': r}\<close>; the witness is the case
  \<open>s = r = 10000000000\<close>. The start case is the one of the model \<open>startCase\<close>.
\<close>

theorem image_example:
  assumes "\<not> isObject s" and "\<not> isObject r"
  shows "makeFlatStartCaseObject startCase
           (Obj [(''image'', Obj [(''size'', s), (''recommendedSize'', r)])]) =
         Inr (Obj [(''Image Size'', s), (''Image Recommended Size'', r)])"
proof -
  have k1: "renameKey startCase ''image'' = ''Image''" by code_simp
  have k2: "renameKey startCase ''size'' = ''Size''" by code_simp
  have k3: "renameKey startCase ''recommendedSize'' = ''Recommended Size''" by code_simp
  have a1: "\<not> isArrayIndex ''Image''" by code_simp
  have a2: "\<not> isArrayIndex ''Size''" by code_simp
  have a3: "\<not> isArrayIndex ''Recommended Size''" by code_simp
  have a4: "\<not> isArrayIndex ''Image Size''" by code_simp
  have a5: "\<not> isArrayIndex ''Image Recommended Size''" by code_simp
  have ns: "\<not> shadowed (Obj [(''image'', Obj [(''size'', s), (''recommendedSize'', r)])])"
    using assms by (simp add: hasOwn_def not_isObject_not_shadowed)
  have "renameAll (renameKey startCase)
             (Obj [(''image'', Obj [(''size'', s), (''recommendedSize'', r)])]) =
           Obj [(''Image'', Obj [(''Size'', s), (''Recommended Size'', r)])]"
    using assms by (simp add: k1 k2 k3 a1 a2 a3 setProp_def renameAll_scalar)
  with ns have d: "deepMapKeys (renameKey startCase)
             (Obj [(''image'', Obj [(''size'', s), (''recommendedSize'', r)])]) =
           Inr (Obj [(''Image'', Obj [(''Size'', s), (''Recommended Size'', r)])])"
    by (simp only: deepMapKeys_eq if_False)
  have "step None [(''Image'', Obj [(''Size'', s), (''Recommended Size'', r)])] [] =
        [(''Image Size'', s), (''Image Recommended Size'', r)]"
    using assms
    by (simp add: step_leaf not_isObject_not_descends newKey_def setProp_def a4 a5)
  with d show ?thesis
    by (simp add: flatten_def del: deepMapKeys.simps)
qed

theorem image_example_witness:
  "makeFlatStartCaseObject startCase
     (Obj [(''image'', Obj [(''size'', Num 10000000000), (''recommendedSize'', Num 10000000000)])]) =
   Inr (Obj [(''Image Size'', Num 10000000000), (''Image Recommended Size'', Num 10000000000)])"
  using image_example [of "Num 10000000000" "Num 10000000000"] by simp

subsection \<open>Which keys are preserved\<close>

text \<open>
  Claim C5 says that every key of a mapping input, at every depth, is preserved if it
  passes \<open>/^[A-Z_]+$/\<close> and is converted to start case otherwise. The rule is the one of the
  code, and it is applied at every depth, as long as no mapping has a key
  \<open>hasOwnProperty\<close> (\<open>key_renaming_rule\<close> above). On the input \<open>{hasOwnProperty: 1}\<close> the claim
  fails: the key does not pass the test and its start case is \<open>Has Own Property\<close>, but
  \<open>deepMapKeys\<close> calls \<open>obj.hasOwnProperty(key)\<close>, which is the number \<open>1\<close> here, and
  \<open>makeFlatStartCaseObject\<close> throws a \<open>TypeError\<close> instead of returning
  \<open>{'Has Own Property': 1}\<close>.
\<close>

theorem key_renaming_throws:
  "\<not> regexTest ''hasOwnProperty'' \<and>
   renameKey startCase ''hasOwnProperty'' = ''Has Own Property'' \<and>
   makeFlatStartCaseObject startCase (Obj [(''hasOwnProperty'', Num 1)]) = Inl TypeError"
  by code_simp

subsection \<open>Sequence inputs\<close>

text \<open>
  Claim C6 says that every sequence input gives a sequence of the same length, with the
  mappings and sequences in it transformed and the scalars passed through. That holds as
  long as no mapping in the sequence has a key \<open>hasOwnProperty\<close> (\<open>array_input\<close> above). On the
  input \<open>[{hasOwnProperty: 1}]\<close> the claim fails: the call on the element throws a
  \<open>TypeError\<close>, for the reason given at claim C5, and so does the call on the sequence
  (\<open>makeFlat_throws_iff\<close>: the function throws exactly when some mapping of its input has
  that key).
\<close>

theorem array_input_throws:
  "makeFlatStartCaseObject startCase (Arr [Obj [(''hasOwnProperty'', Num 1)]]) = Inl TypeError"
  by code_simp

subsection \<open>The rewriting of string leaves\<close>

text \<open>
  Claim C2. Let the input have the string \<open>v\<close> at some position (under keys and indices,
  or at the root). The output of \<open>hideAbsolutePathsInObject\<close> has at that position: \<open>v\<close>
  itself if \<open>v\<close> starts with \<open>/dev/\<close> or with two backslashes, a dot and a backslash;
  otherwise, if \<open>v\<close> is absolute for the platform's \<open>path.isAbsolute\<close>, its basename; otherwise
  \<open>v\<close> itself. The basename holds no separator, and it is the last segment of the path:
  what follows it are separators only, and what precedes it is empty or ends with a
  separator.
\<close>

theorem string_leaf_rewrite:
  assumes "valueAt x p = Some (Str v)"
  shows "valueAt (hideAbsolutePathsInObject pf x) p =
           Some (Str (if prefix ''/dev/'' v \<or> prefix [CHR 0x5C, CHR 0x5C, CHR ''.'', CHR 0x5C] v then v
                      else if isAbsolute pf v then basename pf v else v)) \<and>
         (\<forall>c \<in> set (basename pf v). \<not> isSep pf c) \<and>
         (\<exists>d t. afterDrive pf v = d @ basename pf v @ t \<and> (\<forall>c \<in> set t. isSep pf c) \<and>
            (d = [] \<or> isSep pf (last d)))"
proof -
  have "valueAt (hideAbsolutePathsInObject pf x) p = Some (hidePath pf (Str v))"
    unfolding hideAbsolutePathsInObject_def
    using assms by (rule valueAt_deepMapValues) simp
  then show ?thesis
    using basename_no_sep [of _ pf v] basename_decomp [of pf v]
    by (simp add: devPrefix_def devPrefixWin_def backslash_def)
qed

theorem string_leaf_rewrite_witness:
  "valueAt (hideAbsolutePathsInObject Posix johnsImages) [Key ''nested'', Key ''path2'']
     = Some (Str ''another-image.img'') \<and>
   valueAt (hideAbsolutePathsInObject Posix johnsImages) [Key ''nested'', Key ''path3'']
     = Some (Str ''yet-another-image.img'') \<and>
   valueAt (hideAbsolutePathsInObject Posix johnsImages) [Key ''drives'', Index 0]
     = Some (Str ''/dev/disk2'') \<and>
   valueAt (hideAbsolutePathsInObject Win32 (Arr [Str windowsImage, Str windowsDrive])) [Index 0]
     = Some (Str ''rpi.img'') \<and>
   valueAt (hideAbsolutePathsInObject Win32 (Arr [Str windowsImage, Str windowsDrive])) [Index 1]
     = Some (Str windowsDrive)"
proof -
  have 1: "valueAt johnsImages [Key ''nested'', Key ''path2''] =
      Some (Str ''/home/john/another-image.img'')" by code_simp
  have 2: "valueAt johnsImages [Key ''nested'', Key ''path3''] =
      Some (Str ''yet-another-image.img'')" by code_simp
  have 3: "valueAt johnsImages [Key ''drives'', Index 0] = Some (Str ''/dev/disk2'')"
    by code_simp
  have e1: "(if prefix ''/dev/'' ''/home/john/another-image.img'' \<or>
        prefix [CHR 0x5C, CHR 0x5C, CHR ''.'', CHR 0x5C] ''/home/john/another-image.img''
      then ''/home/john/another-image.img''
      else if isAbsolute Posix ''/home/john/another-image.img''
        then basename Posix ''/home/john/another-image.img''
        else ''/home/john/another-image.img'') = ''another-image.img''" by code_simp
  have e2: "(if prefix ''/dev/'' ''yet-another-image.img'' \<or>
        prefix [CHR 0x5C, CHR 0x5C, CHR ''.'', CHR 0x5C] ''yet-another-image.img''
      then ''yet-another-image.img''
      else if isAbsolute Posix ''yet-another-image.img''
        then basename Posix ''yet-another-image.img''
        else ''yet-another-image.img'') = ''yet-another-image.img''" by code_simp
  have e3: "(if prefix ''/dev/'' ''/dev/disk2'' \<or>
        prefix [CHR 0x5C, CHR 0x5C, CHR ''.'', CHR 0x5C] ''/dev/disk2''
      then ''/dev/disk2''
      else if isAbsolute Posix ''/dev/disk2'' then basename Posix ''/dev/disk2''
        else ''/dev/disk2'') = ''/dev/disk2''" by code_simp
  have 4: "valueAt (Arr [Str windowsImage, Str windowsDrive]) [Index 0] = Some (Str windowsImage)"
    by simp
  have 5: "valueAt (Arr [Str windowsImage, Str windowsDrive]) [Index 1] = Some (Str windowsDrive)"
    by simp
  have e4: "(if prefix ''/dev/'' windowsImage \<or>
        prefix [CHR 0x5C, CHR 0x5C, CHR ''.'', CHR 0x5C] windowsImage
      then windowsImage
      else if isAbsolute Win32 windowsImage then basename Win32 windowsImage
        else windowsImage) = ''rpi.img''" by code_simp
  have e5: "(if prefix ''/dev/'' windowsDrive \<or>
        prefix [CHR 0x5C, CHR 0x5C, CHR ''.'', CHR 0x5C] windowsDrive
      then windowsDrive
      else if isAbsolute Win32 windowsDrive then basename Win32 windowsDrive
        else windowsDrive) = windowsDrive" by code_simp
  from string_leaf_rewrite [OF 1, of Posix] string_leaf_rewrite [OF 2, of Posix]
    string_leaf_rewrite [OF 3, of Posix] string_leaf_rewrite [OF 4, of Win32]
    string_leaf_rewrite [OF 5, of Win32]
  show ?thesis unfolding e1 e2 e3 e4 e5 by blast
qed

subsection \<open>Shape\<close>

text \<open>
  Claim C8. For every input \<open>x\<close>, the output of \<open>hideAbsolutePathsInObject\<close> has the shape of
  \<open>x\<close>: a mapping with the same keys where \<open>x\<close> has a mapping, a sequence of the same length
  where \<open>x\<close> has a sequence, a scalar where \<open>x\<close> has one; a string leaf is a string in the
  output, and the same string unless it qualifies for rewriting (it is absolute and has
  no device prefix); every leaf that is not a string (a number, a boolean, \<open>null\<close>,
  \<open>undefined\<close>) is unchanged, at every position.
\<close>

theorem shape_preserved:
  "sameShape (qualifies pf) x (hideAbsolutePathsInObject pf x) \<and>
   (valueAt x p = Some l \<and> \<not> isObject l \<and> \<not> isString l \<longrightarrow>
      valueAt (hideAbsolutePathsInObject pf x) p = Some l)"
proof
  show "sameShape (qualifies pf) x (hideAbsolutePathsInObject pf x)"
    unfolding hideAbsolutePathsInObject_def
    by (rule sameShape_deepMapValues) (simp add: sameShape_hidePath)
  show "valueAt x p = Some l \<and> \<not> isObject l \<and> \<not> isString l \<longrightarrow>
      valueAt (hideAbsolutePathsInObject pf x) p = Some l"
  proof
    assume a: "valueAt x p = Some l \<and> \<not> isObject l \<and> \<not> isString l"
    then have "valueAt (hideAbsolutePathsInObject pf x) p = Some (hidePath pf l)"
      unfolding hideAbsolutePathsInObject_def by (intro valueAt_deepMapValues) simp_all
    moreover from a have "hidePath pf l = l" by (cases l) simp_all
    ultimately show "valueAt (hideAbsolutePathsInObject pf x) p = Some l" by simp
  qed
qed

theorem shape_preserved_witness:
  "sameShape (qualifies Posix) johnsImages (hideAbsolutePathsInObject Posix johnsImages) \<and>
   valueAt (hideAbsolutePathsInObject Posix johnsImages) [Key ''nested'', Key ''otherProperty'']
     = Some (Bool False) \<and>
   hideAbsolutePathsInObject Posix johnsImages = johnsImagesHidden"
proof -
  have "valueAt johnsImages [Key ''nested'', Key ''otherProperty''] = Some (Bool False) \<and>
      \<not> isObject (Bool False) \<and> \<not> isString (Bool False)"
    by code_simp
  with shape_preserved [of Posix johnsImages "[Key ''nested'', Key ''otherProperty'']" "Bool False"]
  show ?thesis using hide_johnsImages by blast
qed

subsection \<open>Idempotence\<close>

text \<open>
  Claim C9. \<open>hideAbsolutePathsInObject\<close> is idempotent, on both platforms: applied to its
  own output it changes nothing. (A basename has no separator, so it is not absolute.)
\<close>

theorem anonymize_idempotent:
  "hideAbsolutePathsInObject pf (hideAbsolutePathsInObject pf x) =
     hideAbsolutePathsInObject pf x"
  unfolding hideAbsolutePathsInObject_def
  by (rule deepMapValues_idem) (simp_all add: hidePath_idem hidePath_isObject)

theorem anonymize_idempotent_witness:
  "hideAbsolutePathsInObject Posix johnsImagesHidden = johnsImagesHidden"
  using anonymize_idempotent [of Posix johnsImages] unfolding hide_johnsImages .

end
